theory Spec2Isabelle
  imports Complex_Main "HOL-Library.Word" "HOL-Library.Multiset"
begin

unbundle bit_operations_syntax

section \<open>The e-paper uploader: constants, models and palettes\<close>

text \<open>
  The uploader converts a 1304 x 984 RGBA raster into two packed, reordered ink planes
  and posts them to the panel controller. The constants below are the module constants
  of the uploader script.
\<close>

definition CHUNK_SIZE :: nat where "CHUNK_SIZE = 30000"
definition WIDTH :: nat where "WIDTH = 1304"
definition HEIGHT :: nat where "HEIGHT = 984"

definition XSTR :: nat where
  \<comment> \<open>\<open>Math.ceil(WIDTH / 4)\<close>\<close>
  "XSTR = (WIDTH + 3) div 4"

definition TOP_HALF_ROWS :: nat where
  \<comment> \<open>\<open>HEIGHT / 2\<close>; \<open>HEIGHT\<close> is even, so the quotient is the integer 492\<close>
  "TOP_HALF_ROWS = HEIGHT div 2"

definition LEFT_NIBBLES :: nat where "LEFT_NIBBLES = 162"
definition RIGHT_NIBBLES :: nat where "RIGHT_NIBBLES = XSTR - LEFT_NIBBLES"

text \<open>
  The three panel models: \<open>12.48inch e-Paper\<close>, \<open>12.48inch e-Paper (B)\<close> and
  \<open>12.48inch e-Paper (C)\<close>.
\<close>

datatype ModelName = EPaper | EPaperB | EPaperC

text \<open>\<open>MODELS[model].color\<close>: 0 mono, 1 black and red, 2 black and yellow.\<close>

fun color :: "ModelName \<Rightarrow> nat" where
  "color EPaper = 0"
| "color EPaperB = 1"
| "color EPaperC = 2"

text \<open>
  The lookup \<open>MODELS[model]\<close> on the string a caller passes: \<open>None\<close> is JavaScript's
  \<open>undefined\<close> for a key the table does not have. (The names of the properties every
  JavaScript object inherits, such as \<open>constructor\<close>, are not model names and are
  left out of the model: the type \<open>ModelName\<close> of the script excludes them.)
\<close>

definition MODELS :: "string \<Rightarrow> ModelName option" where
  "MODELS s =
     (if s = ''12.48inch e-Paper'' then Some EPaper
      else if s = ''12.48inch e-Paper (B)'' then Some EPaperB
      else if s = ''12.48inch e-Paper (C)'' then Some EPaperC
      else None)"

text \<open>A quantization mode is one of 0, 1, 2, 3; bit 0 asks for colour, bit 1 for dithering.\<close>

type_synonym Mode = nat

type_synonym rgb = "int \<times> int \<times> int"

definition PAL_ARR :: "rgb list list" where
  "PAL_ARR =
    [ [(0,0,0), (255,255,255)],
      [(0,0,0), (255,255,255), (255,0,0)],
      [(0,0,0), (255,255,255), (127,127,127)],
      [(0,0,0), (255,255,255), (127,127,127), (127,0,0)],
      [(0,0,0), (255,255,255)],
      [(0,0,0), (255,255,255), (220,180,0)] ]"

fun basePalIndFor :: "ModelName \<Rightarrow> nat" where
  "basePalIndFor EPaper = 0"
| "basePalIndFor EPaperB = 1"
| "basePalIndFor EPaperC = 5"

definition paletteForMode :: "ModelName \<Rightarrow> Mode \<Rightarrow> rgb list" where
  "paletteForMode model mode =
     (let palInd = basePalIndFor model;
          isRed = (mode AND 1 = 1);
          palInd = (if \<not> isRed then palInd AND 254 else palInd)
      in PAL_ARR ! palInd)"


section \<open>JavaScript numbers\<close>

text \<open>
  The quantizers compute on JavaScript numbers (IEEE 754 doubles). The model does not fix
  one arithmetic: every function below takes the arithmetic as a parameter, a record of
  the operations the script uses, and the theorems hold for whichever operations the
  record carries, rounding included. \<open>lit\<close> is the number with a given integer value (a
  literal, a byte read from a typed array, a palette entry), \<open>undef\<close> what an
  out-of-range typed-array read becomes in arithmetic (\<open>NaN\<close>), \<open>infinity\<close> is
  \<open>Number.POSITIVE_INFINITY\<close>.
\<close>

record 'a arith =
  lit :: "int \<Rightarrow> 'a"
  undef :: "'a"
  infinity :: "'a"
  nplus :: "'a \<Rightarrow> 'a \<Rightarrow> 'a"
  nminus :: "'a \<Rightarrow> 'a \<Rightarrow> 'a"
  ntimes :: "'a \<Rightarrow> 'a \<Rightarrow> 'a"
  ndiv :: "'a \<Rightarrow> 'a \<Rightarrow> 'a"
  nless :: "'a \<Rightarrow> 'a \<Rightarrow> bool"

text \<open>
  One arithmetic to run the model on: exact arithmetic on finite numbers, with \<open>NaN\<close>
  and \<open>+Infinity\<close>. A comparison with \<open>NaN\<close> is false, and every finite number is below
  \<open>+Infinity\<close>. Arithmetic that involves \<open>NaN\<close> or \<open>+Infinity\<close> gives \<open>NaN\<close>; the
  script never computes with \<open>+Infinity\<close>, it only compares against it.
\<close>

datatype jsnum = Num real | PosInf | NaN

fun jsbin :: "(real \<Rightarrow> real \<Rightarrow> real) \<Rightarrow> jsnum \<Rightarrow> jsnum \<Rightarrow> jsnum" where
  "jsbin f (Num a) (Num b) = Num (f a b)"
| "jsbin f _ _ = NaN"

fun jsless :: "jsnum \<Rightarrow> jsnum \<Rightarrow> bool" where
  "jsless (Num a) (Num b) = (a < b)"
| "jsless (Num a) PosInf = True"
| "jsless _ _ = False"

definition ideal :: "jsnum arith" where
  "ideal = \<lparr> lit = (\<lambda>i. Num (of_int i)), undef = NaN, infinity = PosInf,
             nplus = jsbin (+), nminus = jsbin (-), ntimes = jsbin (*),
             ndiv = (\<lambda>a b. if b = Num 0 then NaN else jsbin (/) a b),
             nless = jsless \<rparr>"

text \<open>
  Doubles compute exactly on integers of magnitude up to \<open>2^53\<close>: when both operands
  and the result are such integers, the operation returns the result, and the comparison
  is the integers' comparison. \<open>exact_on_ints\<close> says this of an arithmetic.
\<close>

definition small :: "int \<Rightarrow> bool" where
  "small a = (\<bar>a\<bar> \<le> 2 ^ 53)"

definition exact_on_ints :: "'a arith \<Rightarrow> bool" where
  "exact_on_ints A =
     (\<forall>a b. small a \<and> small b \<longrightarrow>
        (small (a + b) \<longrightarrow> nplus A (lit A a) (lit A b) = lit A (a + b)) \<and>
        (small (a - b) \<longrightarrow> nminus A (lit A a) (lit A b) = lit A (a - b)) \<and>
        (small (a * b) \<longrightarrow> ntimes A (lit A a) (lit A b) = lit A (a * b)) \<and>
        (nless A (lit A a) (lit A b) = (a < b)) \<and>
        nless A (lit A a) (infinity A))"

section \<open>Typed arrays\<close>

text \<open>
  A \<open>Uint8ClampedArray\<close> or \<open>Uint8Array\<close> is a list of bytes. A read past the end
  gives \<open>undefined\<close> (\<open>None\<close>); a write past the end is ignored, which is what
  \<open>xs[i := v]\<close> does. Storing a number into a \<open>Uint8ClampedArray\<close> clamps it to
  0..255; the only numbers the script stores are palette entries, which are integers.
\<close>

type_synonym u8 = "8 word"

definition rd :: "u8 list \<Rightarrow> nat \<Rightarrow> u8 option" where
  "rd a i = (if i < length a then Some (a ! i) else None)"

definition toNum :: "'a arith \<Rightarrow> u8 option \<Rightarrow> 'a" where
  "toNum A v = (case v of None \<Rightarrow> undef A | Some w \<Rightarrow> lit A (uint w))"

definition clamp8 :: "int \<Rightarrow> u8" where
  "clamp8 v = word_of_int (max 0 (min 255 v))"

datatype error =
    TypeError
  | UnexpectedLength nat nat
  | UnsupportedModel string
  | PostFailed string

text \<open>A \<open>for\<close> loop over the indices \<open>is\<close> whose body may throw.\<close>

fun forE :: "nat list \<Rightarrow> (nat \<Rightarrow> 's \<Rightarrow> error + 's) \<Rightarrow> 's \<Rightarrow> error + 's" where
  "forE [] f s = Inr s"
| "forE (i # is) f s = (case f i s of Inl e \<Rightarrow> Inl e | Inr s' \<Rightarrow> forE is f s')"

section \<open>Quantizer\<close>

text \<open>
  \<open>nearestIdx\<close>: the loop over the palette keeps the index and the distance of the
  best entry so far; \<open>nearestIdx_step\<close> is its body at index \<open>i\<close>.
\<close>

definition nearestIdx_step ::
  "'a arith \<Rightarrow> 'a \<Rightarrow> 'a \<Rightarrow> 'a \<Rightarrow> rgb list \<Rightarrow> nat \<Rightarrow> nat \<times> 'a \<Rightarrow> nat \<times> 'a" where
  "nearestIdx_step A r g b pal i s =
     (case s of (idx, best) \<Rightarrow>
       (case pal ! i of (pr, pg, pb) \<Rightarrow>
         let dr = nminus A r (lit A pr);
             dg = nminus A g (lit A pg);
             db = nminus A b (lit A pb);
             d = nplus A (nplus A (ntimes A dr dr) (ntimes A dg dg)) (ntimes A db db)
         in if nless A d best then (i, d) else (idx, best)))"

definition nearestIdx :: "'a arith \<Rightarrow> 'a \<Rightarrow> 'a \<Rightarrow> 'a \<Rightarrow> rgb list \<Rightarrow> nat" where
  "nearestIdx A r g b pal =
     fst (fold (nearestIdx_step A r g b pal) [0..<length pal] (0, infinity A))"

text \<open>
  The palette lookup \<open>const [r,g,b] = pal[k]\<close> throws a \<open>TypeError\<close> when \<open>pal[k]\<close>
  is \<open>undefined\<close>.
\<close>

definition palAt :: "rgb list \<Rightarrow> nat \<Rightarrow> error + rgb" where
  "palAt pal k = (if k < length pal then Inr (pal ! k) else Inl TypeError)"

text \<open>Writing one output pixel: \<open>out[i]=r; out[i+1]=g; out[i+2]=b; out[i+3]=255\<close>.\<close>

definition putPixel :: "u8 list \<Rightarrow> nat \<Rightarrow> rgb \<Rightarrow> u8 list" where
  "putPixel out i c =
     (case c of (r, g, b) \<Rightarrow>
        out[i := clamp8 r, i + 1 := clamp8 g, i + 2 := clamp8 b, i + 3 := 255])"

definition levelPixel ::
  "'a arith \<Rightarrow> u8 list \<Rightarrow> rgb list \<Rightarrow> nat \<Rightarrow> nat \<Rightarrow> u8 list \<Rightarrow> error + u8 list" where
  "levelPixel A rgba pal y x out =
     (let i = (y * WIDTH + x) * 4;
          k = nearestIdx A (toNum A (rd rgba i)) (toNum A (rd rgba (i + 1)))
                (toNum A (rd rgba (i + 2))) pal
      in case palAt pal k of
           Inl e \<Rightarrow> Inl e
         | Inr c \<Rightarrow> Inr (putPixel out i c))"

definition quantizeLevelWeb :: "'a arith \<Rightarrow> u8 list \<Rightarrow> rgb list \<Rightarrow> error + u8 list" where
  "quantizeLevelWeb A rgba pal =
     forE [0..<HEIGHT] (\<lambda>y. forE [0..<WIDTH] (\<lambda>x. levelPixel A rgba pal y x))
       (replicate (length rgba) 0)"

text \<open>
  The dithering path. An error accumulator holds one triple of numbers per column.
  \<open>add\<close> is the local function \<open>add(acc, er, eg, eb, k)\<close>, which adds \<open>k/32\<close> of the
  residual to a triple.
\<close>

type_synonym 'a acc = "'a \<times> 'a \<times> 'a"

definition add :: "'a arith \<Rightarrow> 'a acc \<Rightarrow> 'a acc \<Rightarrow> int \<Rightarrow> 'a acc" where
  "add A acc e k =
     (case acc of (a0, a1, a2) \<Rightarrow>
      (case e of (er, eg, eb) \<Rightarrow>
        let f = ndiv A (lit A k) (lit A 32)
        in (nplus A a0 (ntimes A er f), nplus A a1 (ntimes A eg f), nplus A a2 (ntimes A eb f))))"

text \<open>
  The three branches that distribute the residual \<open>e\<close> of the pixel at column \<open>x\<close>;
  \<open>errA\<close> is the accumulator of the current row, \<open>errB\<close> that of the next row.
\<close>

definition diffuse ::
  "'a arith \<Rightarrow> nat \<Rightarrow> 'a acc \<Rightarrow> 'a acc list \<times> 'a acc list \<Rightarrow> 'a acc list \<times> 'a acc list" where
  "diffuse A x e s =
     (case s of (errA, errB) \<Rightarrow>
       if x = 0 then
         let errB = errB[x := add A (errB ! x) e 7];
             errB = (if x + 1 < WIDTH then errB[x + 1 := add A (errB ! (x + 1)) e 2] else errB);
             errA = (if x + 1 < WIDTH then errA[x + 1 := add A (errA ! (x + 1)) e 7] else errA)
         in (errA, errB)
       else if x = WIDTH - 1 then
         let errB = errB[x - 1 := add A (errB ! (x - 1)) e 7];
             errB = errB[x := add A (errB ! x) e 9]
         in (errA, errB)
       else
         let errB = errB[x - 1 := add A (errB ! (x - 1)) e 3];
             errB = errB[x := add A (errB ! x) e 5];
             errB = errB[x + 1 := add A (errB ! (x + 1)) e 1];
             errA = errA[x + 1 := add A (errA ! (x + 1)) e 7]
         in (errA, errB))"

text \<open>
  The state of the dithering loops: the output buffer and the two accumulators. \<open>buf\<close>,
  the \<open>Float32Array\<close> copy of the source, holds the source's bytes as numbers and is
  never written after the copy, so the model reads the source.
\<close>

type_synonym 'a dstate = "u8 list \<times> 'a acc list \<times> 'a acc list"

text \<open>\<open>carried\<close>: the pixel's value plus the error carried to its column (\<open>r\<close>, \<open>g\<close>, \<open>b\<close>).\<close>

definition carried :: "'a arith \<Rightarrow> u8 list \<Rightarrow> nat \<Rightarrow> nat \<Rightarrow> 'a acc list \<Rightarrow> 'a acc" where
  "carried A srcRGBA y x errA =
     (case errA ! x of (ca, cb, cc) \<Rightarrow>
        let i = (y * WIDTH + x) * 4
        in (nplus A (toNum A (rd srcRGBA i)) ca,
            nplus A (toNum A (rd srcRGBA (i + 1))) cb,
            nplus A (toNum A (rd srcRGBA (i + 2))) cc))"

definition ditherPixel ::
  "'a arith \<Rightarrow> u8 list \<Rightarrow> rgb list \<Rightarrow> nat \<Rightarrow> nat \<Rightarrow> 'a dstate \<Rightarrow> error + 'a dstate" where
  "ditherPixel A srcRGBA pal y x s =
     (case s of (out, errA, errB) \<Rightarrow>
       (case carried A srcRGBA y x errA of (r, g, b) \<Rightarrow>
        let i = (y * WIDTH + x) * 4;
            kIdx = nearestIdx A r g b pal
        in case palAt pal kIdx of
             Inl e \<Rightarrow> Inl e
           | Inr (rr, gg, bb) \<Rightarrow>
               let out = putPixel out i (rr, gg, bb);
                   e = (nminus A r (lit A rr), nminus A g (lit A gg), nminus A b (lit A bb))
               in (case diffuse A x e (errA, errB) of
                     (errA, errB) \<Rightarrow> Inr (out, errA, errB))))"





section \<open>Notions used in the statements about the quantizer\<close>

text \<open>
  Pixel \<open>p\<close> of an RGBA buffer is its bytes \<open>4p .. 4p+3\<close>. A palette entry is a byte
  triple when its three components are in 0..255, as those of every palette of
  \<open>PAL_ARR\<close> are.
\<close>

definition pixelRGB :: "u8 list \<Rightarrow> nat \<Rightarrow> rgb" where
  "pixelRGB buf p = (uint (buf ! (4 * p)), uint (buf ! (4 * p + 1)), uint (buf ! (4 * p + 2)))"

definition pixelAlpha :: "u8 list \<Rightarrow> nat \<Rightarrow> u8" where
  "pixelAlpha buf p = buf ! (4 * p + 3)"

definition byte_rgb :: "rgb \<Rightarrow> bool" where
  "byte_rgb c =
     (case c of (r, g, b) \<Rightarrow> 0 \<le> r \<and> r \<le> 255 \<and> 0 \<le> g \<and> g \<le> 255 \<and> 0 \<le> b \<and> b \<le> 255)"

text \<open>The squared Euclidean distance of two colours, on the integers.\<close>

definition dist2 :: "rgb \<Rightarrow> rgb \<Rightarrow> int" where
  "dist2 c d =
     (case c of (r, g, b) \<Rightarrow> (case d of (pr, pg, pb) \<Rightarrow>
        (r - pr) * (r - pr) + (g - pg) * (g - pg) + (b - pb) * (b - pb)))"

text \<open>
  The loop invariant of both quantizers: the buffer has length \<open>L\<close>, and each of the
  first \<open>n\<close> pixels that lies inside it is opaque and has a colour that \<open>Q\<close> accepts.
\<close>

definition done_upto :: "(nat \<Rightarrow> rgb \<Rightarrow> bool) \<Rightarrow> nat \<Rightarrow> nat \<Rightarrow> u8 list \<Rightarrow> bool" where
  "done_upto Q L n out =
     (length out = L \<and>
      (\<forall>p<n. 4 * p + 3 < L \<longrightarrow> Q p (pixelRGB out p) \<and> pixelAlpha out p = 255))"

text \<open>The palette index the flat path computes for pixel \<open>p\<close> of the source.\<close>

definition levelIdx :: "'a arith \<Rightarrow> u8 list \<Rightarrow> rgb list \<Rightarrow> nat \<Rightarrow> nat" where
  "levelIdx A rgba pal p =
     nearestIdx A (toNum A (rd rgba (p * 4))) (toNum A (rd rgba (p * 4 + 1)))
       (toNum A (rd rgba (p * 4 + 2))) pal"

text \<open>\<open>k\<close> is the first of the first \<open>n\<close> palette entries at the least distance from \<open>c\<close>.\<close>

definition first_nearest :: "rgb \<Rightarrow> rgb list \<Rightarrow> nat \<Rightarrow> nat \<Rightarrow> bool" where
  "first_nearest c pal n k =
     (k < n \<and> (\<forall>i<n. dist2 c (pal ! k) \<le> dist2 c (pal ! i)) \<and>
      (\<forall>i<k. dist2 c (pal ! k) < dist2 c (pal ! i)))"

section \<open>Plane separator\<close>

text \<open>
  A byte read for a comparison: \<open>rgba[k]\<close> is a number in 0..255, or \<open>undefined\<close>
  (\<open>None\<close>) past the end; \<open>===\<close> against a number is false for \<open>undefined\<close>.
\<close>

definition rdn :: "u8 list \<Rightarrow> nat \<Rightarrow> int option" where
  "rdn a k = map_option uint (rd a k)"

definition accentOf :: "nat \<Rightarrow> rgb option" where
  "accentOf colorFlag =
     (if colorFlag = 1 then Some (255, 0, 0)
      else if colorFlag = 2 then Some (220, 180, 0)
      else None)"

text \<open>\<open>mode ?? 1\<close>: an absent mode counts as mode 1.\<close>

definition triColorOf :: "nat \<Rightarrow> Mode option \<Rightarrow> bool" where
  "triColorOf colorFlag mode =
     (colorFlag \<noteq> 0 \<and> (case mode of None \<Rightarrow> 1 | Some m \<Rightarrow> m) AND 1 = 1)"

text \<open>The body of the pixel loop of \<open>makePlanes\<close>, on the pair of planes.\<close>

definition makePlanes_step ::
  "u8 list \<Rightarrow> bool \<Rightarrow> rgb option \<Rightarrow> nat \<Rightarrow> u8 list \<times> u8 list \<Rightarrow> u8 list \<times> u8 list" where
  "makePlanes_step rgba triColor accent i s =
     (case s of (blackBits, ryBits) \<Rightarrow>
       let k = i * 4;
           r = rdn rgba k; g = rdn rgba (k + 1); b = rdn rgba (k + 2); a = rdn rgba (k + 3)
       in if a = Some 0 then (blackBits, ryBits)
          else
            let isWhite = (r = Some 255 \<and> g = Some 255 \<and> b = Some 255);
                isBlack = (r = Some 0 \<and> g = Some 0 \<and> b = Some 0)
            in if isBlack then (blackBits[i := 0], ryBits)
               else if \<not> isWhite \<and> triColor \<and>
                       (case accent of None \<Rightarrow> False
                        | Some (ar, ag, ab) \<Rightarrow> r = Some ar \<and> g = Some ag \<and> b = Some ab)
               then (blackBits, ryBits[i := 0])
               else (blackBits, ryBits))"

definition makePlanes :: "u8 list \<Rightarrow> ModelName \<Rightarrow> Mode option \<Rightarrow> u8 list \<times> u8 list" where
  "makePlanes rgba model mode =
     (let total = WIDTH * HEIGHT;
          blackBits = replicate total 1;
          ryBits = replicate total 1;
          colorFlag = color model;
          triColor = triColorOf colorFlag mode;
          accent = accentOf colorFlag
      in fold (makePlanes_step rgba triColor accent) [0..<total] (blackBits, ryBits))"

section \<open>Bit packer\<close>

text \<open>
  The loop state of \<open>packToChars\<close> is the string so far, the nibble being accumulated
  and the count \<open>j\<close> of bits in it.
\<close>

definition packToChars_step :: "u8 \<Rightarrow> string \<times> nat \<times> nat \<Rightarrow> string \<times> nat \<times> nat" where
  "packToChars_step v s =
     (case s of (out, acc, j) \<Rightarrow>
        let acc = acc + push_bit (3 - j) (unat (v AND 1));
            j = j + 1
        in if j = 4 then (out @ [char_of (97 + acc)], 0, 0) else (out, acc, j))"

definition packToChars :: "u8 list \<Rightarrow> string" where
  "packToChars bits =
     (case fold packToChars_step bits ([], 0, 0) of
        (out, acc, j) \<Rightarrow> if j \<noteq> 0 then out @ [char_of (97 + acc)] else out)"

section \<open>Geometry reorderer\<close>

text \<open>
  \<open>slice_str s a b\<close> is \<open>s.slice(a, b)\<close> for indices that are not negative: the
  characters from \<open>a\<close> up to but not including \<open>b\<close>, as many of them as the string
  has; empty when \<open>b \<le> a\<close>.
\<close>

definition slice_str :: "'a list \<Rightarrow> nat \<Rightarrow> nat \<Rightarrow> 'a list" where
  "slice_str s a b = take (b - a) (drop a s)"

definition reorderFor1248 :: "string \<Rightarrow> error + string" where
  "reorderFor1248 msg =
     (if length msg \<noteq> XSTR * HEIGHT then Inl (UnexpectedLength (length msg) (XSTR * HEIGHT))
      else
        let out = [];
            out = fold (\<lambda>i out. let base = i * XSTR in out @ slice_str msg base (base + LEFT_NIBBLES))
                    [0..<TOP_HALF_ROWS] out;
            out = fold (\<lambda>i out. let base = i * XSTR in out @ slice_str msg (base + LEFT_NIBBLES) (base + XSTR))
                    [0..<TOP_HALF_ROWS] out;
            out = fold (\<lambda>i out. let base = i * XSTR in out @ slice_str msg base (base + LEFT_NIBBLES))
                    [TOP_HALF_ROWS..<HEIGHT] out;
            out = fold (\<lambda>i out. let base = i * XSTR in out @ slice_str msg (base + LEFT_NIBBLES) (base + XSTR))
                    [TOP_HALF_ROWS..<HEIGHT] out
        in Inr out)"

section \<open>Chunked transport\<close>

text \<open>
  \<open>chunk\<close>: the loop \<open>for (i = 0; i < s.length; i += n)\<close> does not end when \<open>n = 0\<close> and
  the string is not empty, so the function is partial: \<open>None\<close> is a call that does not
  return.
\<close>

partial_function (option) chunkFrom :: "string \<Rightarrow> nat \<Rightarrow> nat \<Rightarrow> string list option" where
  "chunkFrom s n i =
     (if i < length s
      then Option.bind (chunkFrom s n (i + n)) (\<lambda>rest. Some (slice_str s i (i + n) # rest))
      else Some [])"

definition chunk :: "string \<Rightarrow> nat \<Rightarrow> string list option" where
  "chunk s n = chunkFrom s n 0"

text \<open>
  The device is known by its answers: \<open>dev reqs\<close> says whether the request that
  completes the sequence \<open>reqs\<close> of requests sent so far is answered with success
  (\<open>res.ok\<close>). A \<open>fetch\<close> that rejects ends the upload with an exception as a response
  without success does, so the model does not tell the two apart.
\<close>

datatype request = POST (reqPath: string) (reqBody: string)

type_synonym device = "request list \<Rightarrow> bool"

type_synonym 'a io = "request list \<Rightarrow> (error + 'a) \<times> request list"

definition postText :: "device \<Rightarrow> string \<Rightarrow> string \<Rightarrow> unit io" where
  "postText dev path body sent =
     (let sent = sent @ [POST path body]
      in if dev sent then (Inr (), sent) else (Inl (PostFailed path), sent))"

text \<open>Sequencing of awaited calls: an exception ends the sequence.\<close>

definition andThen :: "unit io \<Rightarrow> unit io \<Rightarrow> unit io" where
  "andThen f g sent =
     (case f sent of
        (Inl e, sent') \<Rightarrow> (Inl e, sent')
      | (Inr u, sent') \<Rightarrow> g sent')"

fun postChunks :: "device \<Rightarrow> string \<Rightarrow> string list \<Rightarrow> unit io" where
  "postChunks dev path [] sent = (Inr (), sent)"
| "postChunks dev path (c # cs) sent = andThen (postText dev path c) (postChunks dev path cs) sent"

text \<open>
  \<open>uploadImageBuffer\<close>, started with no request sent; the result is the outcome and the
  requests sent, or \<open>None\<close> for a call that does not return. The address \<open>ip\<close> only
  names the device. An absent \<open>mode\<close> is mode 2.
\<close>

definition uploadImageBuffer ::
  "device \<Rightarrow> string \<Rightarrow> u8 list \<Rightarrow> Mode option \<Rightarrow> ((error + unit) \<times> request list) option" where
  "uploadImageBuffer dev model rgba mode =
     (let mode = (case mode of None \<Rightarrow> 2 | Some m \<Rightarrow> m)
      in case MODELS model of
        None \<Rightarrow> Some (Inl (UnsupportedModel model), [])
      | Some m \<Rightarrow>
         let colorFlag = color m
         in (case makePlanes rgba m (Some mode) of (blackBits, ryBits) \<Rightarrow>
           let bMsg = packToChars blackBits;
               rMsg = (if colorFlag \<noteq> 0 then packToChars ryBits else [])
           in case reorderFor1248 bMsg of
                Inl e \<Rightarrow> Some (Inl e, [])
              | Inr bOrdered \<Rightarrow>
                 (case (if colorFlag \<noteq> 0 then reorderFor1248 rMsg else Inr []) of
                    Inl e \<Rightarrow> Some (Inl e, [])
                  | Inr rOrdered \<Rightarrow>
                     Option.bind (chunk bOrdered CHUNK_SIZE) (\<lambda>bChunks.
                     Option.bind (if colorFlag \<noteq> 0 then chunk rOrdered CHUNK_SIZE else Some [])
                       (\<lambda>rChunks.
                         Some (andThen (postText dev ''EPD'' model)
                                (andThen (postChunks dev ''LOADA'' bChunks)
                                  (andThen (if colorFlag \<noteq> 0 then postChunks dev ''LOADB'' rChunks
                                            else (\<lambda>sent. (Inr (), sent)))
                                    (postText dev ''SHOW'' model))) []))))))"

section \<open>Notions used in the statements about the planes\<close>

text \<open>
  What the plane separator tests at pixel \<open>i\<close>: whether its alpha is 0, whether its RGB
  is pure black, and whether the accent rule applies (the panel has an accent colour,
  the mode asks for colour, and the RGB is the model's accent colour).
\<close>

definition transparent :: "u8 list \<Rightarrow> nat \<Rightarrow> bool" where
  "transparent rgba i = (rdn rgba (i * 4 + 3) = Some 0)"

definition pureBlack :: "u8 list \<Rightarrow> nat \<Rightarrow> bool" where
  "pureBlack rgba i =
     (rdn rgba (i * 4) = Some 0 \<and> rdn rgba (i * 4 + 1) = Some 0 \<and> rdn rgba (i * 4 + 2) = Some 0)"

definition accentRule :: "u8 list \<Rightarrow> ModelName \<Rightarrow> Mode option \<Rightarrow> nat \<Rightarrow> bool" where
  "accentRule rgba model mode i =
     (triColorOf (color model) mode \<and>
      (case accentOf (color model) of
         None \<Rightarrow> False
       | Some (ar, ag, ab) \<Rightarrow>
           rdn rgba (i * 4) = Some ar \<and> rdn rgba (i * 4 + 1) = Some ag \<and>
           rdn rgba (i * 4 + 2) = Some ab))"

text \<open>The two bits of pixel \<open>i\<close>, in closed form.\<close>

definition darkBit :: "u8 list \<Rightarrow> nat \<Rightarrow> u8" where
  "darkBit rgba i = (if \<not> transparent rgba i \<and> pureBlack rgba i then 0 else 1)"

definition accentBit :: "u8 list \<Rightarrow> ModelName \<Rightarrow> Mode option \<Rightarrow> nat \<Rightarrow> u8" where
  "accentBit rgba model mode i =
     (if \<not> transparent rgba i \<and> \<not> pureBlack rgba i \<and> accentRule rgba model mode i
      then 0 else 1)"

section \<open>Notions used in the statements about the bit packer\<close>

text \<open>
  Bit \<open>i\<close> of a plane as the packer reads it (the low bit of the byte), 0 past the end
  of the plane; the first \<open>j\<close> bits of group \<open>k\<close> as a nibble with the first bit most
  significant; and the whole nibble of group \<open>k\<close>.
\<close>

definition bitAt :: "u8 list \<Rightarrow> nat \<Rightarrow> nat" where
  "bitAt bits i = (if i < length bits then unat (bits ! i AND 1) else 0)"

definition nibblePart :: "u8 list \<Rightarrow> nat \<Rightarrow> nat \<Rightarrow> nat" where
  "nibblePart bits k j = (\<Sum>t<j. push_bit (3 - t) (bitAt bits (4 * k + t)))"

definition nibbleAt :: "u8 list \<Rightarrow> nat \<Rightarrow> nat" where
  "nibbleAt bits k =
     8 * bitAt bits (4 * k) + 4 * bitAt bits (4 * k + 1) + 2 * bitAt bits (4 * k + 2) +
     bitAt bits (4 * k + 3)"

section \<open>Notions used in the statements about the geometry reorderer\<close>

text \<open>
  The permutation in closed form. The output is four blocks: the left
  \<open>LEFT_NIBBLES\<close> columns of the top rows, the remaining columns of the top rows, and
  the same two for the bottom rows. \<open>srcIndex i\<close> is the position in the packed stream
  of the character at position \<open>i\<close> of the output, \<open>dstIndex j\<close> the position in the
  output of the character at position \<open>j\<close> of the packed stream.
\<close>

definition srcIndex :: "nat \<Rightarrow> nat" where
  "srcIndex i =
     (if i < TOP_HALF_ROWS * LEFT_NIBBLES then
        (i div LEFT_NIBBLES) * XSTR + i mod LEFT_NIBBLES
      else if i < TOP_HALF_ROWS * XSTR then
        (let j = i - TOP_HALF_ROWS * LEFT_NIBBLES
         in (j div RIGHT_NIBBLES) * XSTR + (LEFT_NIBBLES + j mod RIGHT_NIBBLES))
      else if i < TOP_HALF_ROWS * XSTR + (HEIGHT - TOP_HALF_ROWS) * LEFT_NIBBLES then
        (let j = i - TOP_HALF_ROWS * XSTR
         in (TOP_HALF_ROWS + j div LEFT_NIBBLES) * XSTR + j mod LEFT_NIBBLES)
      else
        (let j = i - (TOP_HALF_ROWS * XSTR + (HEIGHT - TOP_HALF_ROWS) * LEFT_NIBBLES)
         in (TOP_HALF_ROWS + j div RIGHT_NIBBLES) * XSTR + (LEFT_NIBBLES + j mod RIGHT_NIBBLES)))"

definition dstIndex :: "nat \<Rightarrow> nat" where
  "dstIndex j =
     (let row = j div XSTR; col = j mod XSTR
      in if row < TOP_HALF_ROWS then
           (if col < LEFT_NIBBLES then row * LEFT_NIBBLES + col
            else TOP_HALF_ROWS * LEFT_NIBBLES + row * RIGHT_NIBBLES + (col - LEFT_NIBBLES))
         else
           (if col < LEFT_NIBBLES
            then TOP_HALF_ROWS * XSTR + (row - TOP_HALF_ROWS) * LEFT_NIBBLES + col
            else TOP_HALF_ROWS * XSTR + (HEIGHT - TOP_HALF_ROWS) * LEFT_NIBBLES +
                 (row - TOP_HALF_ROWS) * RIGHT_NIBBLES + (col - LEFT_NIBBLES)))"

section \<open>Notions used in the statements about the transport\<close>

text \<open>
  The successive slices of \<open>n\<close> characters of a string, the last one shorter when the
  length is not a multiple of \<open>n\<close>; and the requests of a complete upload of a dark frame
  and an accent frame, in order.
\<close>

definition slices :: "string \<Rightarrow> nat \<Rightarrow> string list" where
  "slices s n = map (\<lambda>k. slice_str s (k * n) (k * n + n)) [0..<(length s + n - 1) div n]"

definition uploadPlan :: "string \<Rightarrow> ModelName \<Rightarrow> string \<Rightarrow> string \<Rightarrow> request list" where
  "uploadPlan model m bFrame rFrame =
     [POST ''EPD'' model] @
     map (POST ''LOADA'') (slices bFrame CHUNK_SIZE) @
     (if color m \<noteq> 0 then map (POST ''LOADB'') (slices rFrame CHUNK_SIZE) else []) @
     [POST ''SHOW'' model]"

text \<open>Sending a list of requests one after the other until one fails.\<close>

fun sendAll :: "device \<Rightarrow> request list \<Rightarrow> unit io" where
  "sendAll dev [] sent = (Inr (), sent)"
| "sendAll dev (r # rs) sent =
     andThen (postText dev (reqPath r) (reqBody r)) (sendAll dev rs) sent"

section \<open>Loops\<close>

lemma forE_append:
  "forE (xs @ ys) f s = (case forE xs f s of Inl e \<Rightarrow> Inl e | Inr s' \<Rightarrow> forE ys f s')"
  by (induction xs arbitrary: s) (auto split: sum.splits)

text \<open>
  The invariant rule for a counting loop whose body never throws under the invariant.
\<close>

lemma forE_upt_inv:
  assumes init: "I 0 s0"
    and step: "\<And>i s. i < n \<Longrightarrow> I i s \<Longrightarrow> \<exists>s'. f i s = Inr s' \<and> I (Suc i) s'"
  shows "\<exists>s'. forE [0..<n] f s0 = Inr s' \<and> I n s'"
  using step
proof (induction n)
  case 0
  then show ?case using init by simp
next
  case (Suc n)
  from Suc.IH Suc.prems obtain s1 where s1: "forE [0..<n] f s0 = Inr s1" "I n s1"
    by (metis less_Suc_eq)
  from Suc.prems [of n s1] s1 obtain s2 where s2: "f n s1 = Inr s2" "I (Suc n) s2"
    by auto
  show ?case using s1 s2 by (simp add: forE_append)
qed

section \<open>The nearest palette index\<close>

lemma fold_nearestIdx_bound:
  "\<forall>i \<in> set is. i < n \<Longrightarrow> fst s < n \<Longrightarrow> fst (fold (nearestIdx_step A r g b pal) is s) < n"
proof (induction "is" arbitrary: s)
  case Nil
  then show ?case by simp
next
  case (Cons i "is")
  have "fst (nearestIdx_step A r g b pal i s) < n"
    using Cons.prems by (auto simp: nearestIdx_step_def Let_def split: prod.splits)
  with Cons show ?case by simp
qed

lemma nearestIdx_lt: "pal \<noteq> [] \<Longrightarrow> nearestIdx A r g b pal < length pal"
  unfolding nearestIdx_def by (rule fold_nearestIdx_bound) auto

lemma palAt_nearest:
  assumes "pal \<noteq> []"
  shows "palAt pal (nearestIdx A r g b pal) = Inr (pal ! nearestIdx A r g b pal)"
    and "pal ! nearestIdx A r g b pal \<in> set pal"
  using nearestIdx_lt [OF assms, of A r g b] by (simp_all add: palAt_def)

subsection \<open>Exact arithmetic on bytes\<close>

lemma small_bound: "\<bar>a\<bar> \<le> 195075 \<Longrightarrow> small a"
  by (simp add: small_def)

lemma sq_bound: "\<bar>x\<bar> \<le> (255::int) \<Longrightarrow> 0 \<le> x * x \<and> x * x \<le> 65025"
proof -
  assume a: "\<bar>x\<bar> \<le> 255"
  have "\<bar>x\<bar> * \<bar>x\<bar> \<le> 255 * 255" using a by (intro mult_mono) auto
  then show ?thesis by (simp add: abs_mult_self_eq)
qed

lemma exactD:
  assumes "exact_on_ints A" "small a" "small b"
  shows "small (a + b) \<Longrightarrow> nplus A (lit A a) (lit A b) = lit A (a + b)"
    and "small (a - b) \<Longrightarrow> nminus A (lit A a) (lit A b) = lit A (a - b)"
    and "small (a * b) \<Longrightarrow> ntimes A (lit A a) (lit A b) = lit A (a * b)"
    and "nless A (lit A a) (lit A b) = (a < b)"
    and "nless A (lit A a) (infinity A)"
  using assms unfolding exact_on_ints_def by blast+

lemma exact_sq:
  assumes A: "exact_on_ints A" and r: "0 \<le> r" "r \<le> 255" and p: "0 \<le> p" "p \<le> 255"
  shows "ntimes A (nminus A (lit A r) (lit A p)) (nminus A (lit A r) (lit A p)) =
         lit A ((r - p) * (r - p))"
    and "0 \<le> (r - p) * (r - p)" and "(r - p) * (r - p) \<le> 65025"
proof -
  have d: "\<bar>r - p\<bar> \<le> 255" using r p by simp
  have m: "nminus A (lit A r) (lit A p) = lit A (r - p)"
    using r p by (intro exactD [OF A] small_bound) simp_all
  have s: "0 \<le> (r - p) * (r - p) \<and> (r - p) * (r - p) \<le> 65025" by (rule sq_bound [OF d])
  show "ntimes A (nminus A (lit A r) (lit A p)) (nminus A (lit A r) (lit A p)) =
         lit A ((r - p) * (r - p))"
    unfolding m using d s by (intro exactD [OF A] small_bound) simp_all
  show "0 \<le> (r - p) * (r - p)" "(r - p) * (r - p) \<le> 65025" using s by simp_all
qed

lemma exact_dist2:
  assumes A: "exact_on_ints A" and c: "byte_rgb (r, g, b)" and q: "byte_rgb (pr, pg, pb)"
  shows "nplus A (nplus A
           (ntimes A (nminus A (lit A r) (lit A pr)) (nminus A (lit A r) (lit A pr)))
           (ntimes A (nminus A (lit A g) (lit A pg)) (nminus A (lit A g) (lit A pg))))
           (ntimes A (nminus A (lit A b) (lit A pb)) (nminus A (lit A b) (lit A pb))) =
         lit A (dist2 (r, g, b) (pr, pg, pb))"
    and "0 \<le> dist2 (r, g, b) (pr, pg, pb)" and "dist2 (r, g, b) (pr, pg, pb) \<le> 195075"
proof -
  note R = exact_sq [OF A, of r pr] and G = exact_sq [OF A, of g pg] and B = exact_sq [OF A, of b pb]
  have rb: "0 \<le> r" "r \<le> 255" "0 \<le> g" "g \<le> 255" "0 \<le> b" "b \<le> 255"
    using c by (simp_all add: byte_rgb_def)
  have pb: "0 \<le> pr" "pr \<le> 255" "0 \<le> pg" "pg \<le> 255" "0 \<le> pb" "pb \<le> 255"
    using q by (simp_all add: byte_rgb_def)
  note R' = R [OF rb(1,2) pb(1,2)] and G' = G [OF rb(3,4) pb(3,4)] and B' = B [OF rb(5,6) pb(5,6)]
  have s1: "nplus A (lit A ((r - pr) * (r - pr))) (lit A ((g - pg) * (g - pg))) =
      lit A ((r - pr) * (r - pr) + (g - pg) * (g - pg))"
    using R'(2,3) G'(2,3) by (intro exactD [OF A] small_bound) simp_all
  have s2: "nplus A (lit A ((r - pr) * (r - pr) + (g - pg) * (g - pg))) (lit A ((b - pb) * (b - pb))) =
      lit A ((r - pr) * (r - pr) + (g - pg) * (g - pg) + (b - pb) * (b - pb))"
    using R'(2,3) G'(2,3) B'(2,3) by (intro exactD [OF A] small_bound) simp_all
  show "nplus A (nplus A
           (ntimes A (nminus A (lit A r) (lit A pr)) (nminus A (lit A r) (lit A pr)))
           (ntimes A (nminus A (lit A g) (lit A pg)) (nminus A (lit A g) (lit A pg))))
           (ntimes A (nminus A (lit A b) (lit A pb)) (nminus A (lit A b) (lit A pb))) =
         lit A (dist2 (r, g, b) (pr, pg, pb))"
    unfolding R'(1) G'(1) B'(1) s1 s2 by (simp add: dist2_def)
  show "0 \<le> dist2 (r, g, b) (pr, pg, pb)" "dist2 (r, g, b) (pr, pg, pb) \<le> 195075"
    using R'(2,3) G'(2,3) B'(2,3) by (simp_all add: dist2_def)
qed

lemma nearest_step:
  assumes A: "exact_on_ints A" and c: "byte_rgb (r, g, b)" and pal: "list_all byte_rgb pal"
    and n: "n < length pal"
    and inv: "(n = 0 \<and> s = (0, infinity A)) \<or>
              (first_nearest (r, g, b) pal n (fst s) \<and> snd s = lit A (dist2 (r, g, b) (pal ! fst s)))"
  shows "first_nearest (r, g, b) pal (Suc n) (fst (nearestIdx_step A (lit A r) (lit A g) (lit A b) pal n s)) \<and>
         snd (nearestIdx_step A (lit A r) (lit A g) (lit A b) pal n s) =
           lit A (dist2 (r, g, b) (pal ! fst (nearestIdx_step A (lit A r) (lit A g) (lit A b) pal n s)))"
proof -
  obtain pr pg pb where p: "pal ! n = (pr, pg, pb)" by (cases "pal ! n")
  have bp: "byte_rgb (pr, pg, pb)" using pal n p by (metis list_all_length)
  note D = exact_dist2 [OF A c bp]
  define d where "d = dist2 (r, g, b) (pal ! n)"
  have dn: "small d" using D(2,3) by (intro small_bound) (simp add: d_def p)
  obtain idx best where s: "s = (idx, best)" by (cases s)
  have step: "nearestIdx_step A (lit A r) (lit A g) (lit A b) pal n s =
        (if nless A (lit A d) best then (n, lit A d) else (idx, best))"
    unfolding nearestIdx_step_def s prod.case p Let_def D(1) d_def p by (rule refl)
  from inv show ?thesis
  proof
    assume "n = 0 \<and> s = (0, infinity A)"
    then have n0: "n = 0" and lt: "nless A (lit A d) best"
      using s exactD(5) [OF A dn dn] by simp_all
    have res: "nearestIdx_step A (lit A r) (lit A g) (lit A b) pal n s = (n, lit A d)"
      using lt by (simp add: step)
    show ?thesis unfolding res using n0 by (simp add: first_nearest_def d_def)
  next
    assume h: "first_nearest (r, g, b) pal n (fst s) \<and> snd s = lit A (dist2 (r, g, b) (pal ! fst s))"
    then have fn: "first_nearest (r, g, b) pal n idx" and best: "best = lit A (dist2 (r, g, b) (pal ! idx))"
      using s by simp_all
    have idx: "idx < n" using fn by (simp add: first_nearest_def)
    obtain qr qg qb where q: "pal ! idx = (qr, qg, qb)" by (cases "pal ! idx")
    have bq: "byte_rgb (qr, qg, qb)" using pal n idx q by (metis list_all_length less_trans)
    note E = exact_dist2 [OF A c bq]
    have sb: "small (dist2 (r, g, b) (pal ! idx))" using E(2,3) by (intro small_bound) (simp add: q)
    have cmp: "nless A (lit A d) best = (d < dist2 (r, g, b) (pal ! idx))"
      unfolding best by (rule exactD(4) [OF A dn sb])
    show ?thesis
    proof (cases "d < dist2 (r, g, b) (pal ! idx)")
      case True
      have "first_nearest (r, g, b) pal (Suc n) n"
        unfolding first_nearest_def using fn True
        by (auto simp: first_nearest_def d_def less_Suc_eq intro: order.strict_trans2 less_imp_le)
      moreover have "nearestIdx_step A (lit A r) (lit A g) (lit A b) pal n s = (n, lit A d)"
        using True cmp by (simp add: step)
      ultimately show ?thesis by (simp add: d_def)
    next
      case False
      have "first_nearest (r, g, b) pal (Suc n) idx"
        unfolding first_nearest_def using fn False
        by (auto simp: first_nearest_def d_def less_Suc_eq)
      moreover have "nearestIdx_step A (lit A r) (lit A g) (lit A b) pal n s = (idx, best)"
        using False cmp by (simp add: step)
      ultimately show ?thesis by (simp add: best)
    qed
  qed
qed

lemma nearest_fold:
  assumes A: "exact_on_ints A" and c: "byte_rgb (r, g, b)" and pal: "list_all byte_rgb pal"
  shows "n \<le> length pal \<Longrightarrow>
     (let s = fold (nearestIdx_step A (lit A r) (lit A g) (lit A b) pal) [0..<n] (0, infinity A)
      in (n = 0 \<and> s = (0, infinity A)) \<or>
         (first_nearest (r, g, b) pal n (fst s) \<and> snd s = lit A (dist2 (r, g, b) (pal ! fst s))))"
proof (induction n)
  case 0
  then show ?case by simp
next
  case (Suc n)
  then have "n < length pal" by simp
  from nearest_step [OF A c pal this] Suc show ?case by (simp add: Let_def)
qed

lemma nearestIdx_first_nearest:
  assumes "exact_on_ints A" "byte_rgb (r, g, b)" "list_all byte_rgb pal" "pal \<noteq> []"
  shows "first_nearest (r, g, b) pal (length pal) (nearestIdx A (lit A r) (lit A g) (lit A b) pal)"
  using nearest_fold [OF assms(1-3), of "length pal"] assms(4)
  by (simp add: nearestIdx_def Let_def)


section \<open>Output pixels\<close>

lemma uint_clamp8: "0 \<le> v \<Longrightarrow> v \<le> 255 \<Longrightarrow> uint (clamp8 v) = v"
  by (simp add: clamp8_def uint_word_of_int)

lemma length_putPixel [simp]: "length (putPixel out i c) = length out"
  by (cases c) (simp add: putPixel_def)

lemma putPixel_other: "j < i \<or> i + 3 < j \<Longrightarrow> putPixel out i c ! j = out ! j"
  by (cases c) (auto simp: putPixel_def)

lemma putPixel_at:
  assumes "4 * p + 3 < length out" "byte_rgb c"
  shows "pixelRGB (putPixel out (4 * p) c) p = c" "pixelAlpha (putPixel out (4 * p) c) p = 255"
  using assms
  by (cases c; simp add: putPixel_def pixelRGB_def pixelAlpha_def byte_rgb_def uint_clamp8)+

lemma putPixel_keeps:
  assumes "q < p"
  shows "pixelRGB (putPixel out (4 * p) c) q = pixelRGB out q"
        "pixelAlpha (putPixel out (4 * p) c) q = pixelAlpha out q"
  using assms by (simp_all add: pixelRGB_def pixelAlpha_def putPixel_other)

lemma done_upto_init: "done_upto Q L 0 (replicate L 0)"
  by (simp add: done_upto_def)

lemma done_upto_step:
  assumes "done_upto Q L p out" "Q p c" "byte_rgb c"
  shows "done_upto Q L (Suc p) (putPixel out (p * 4) c)"
proof -
  have L: "length out = L" using assms(1) by (simp add: done_upto_def)
  have "Q q (pixelRGB (putPixel out (4 * p) c) q) \<and> pixelAlpha (putPixel out (4 * p) c) q = 255"
    if "q < Suc p" "4 * q + 3 < L" for q
  proof (cases "q = p")
    case True
    then show ?thesis using that L assms(2,3) by (simp add: putPixel_at)
  next
    case False
    then have "q < p" using that by simp
    then show ?thesis using assms(1) that by (simp add: putPixel_keeps done_upto_def)
  qed
  then show ?thesis using L by (simp add: done_upto_def mult.commute)
qed


text \<open>One row of pixels: every step writes pixel \<open>y * WIDTH + x\<close> with an accepted colour.\<close>

lemma row_loop:
  assumes init: "done_upto Q L (y * WIDTH) (outp s0)"
    and step: "\<And>x s. x < WIDTH \<Longrightarrow>
       \<exists>s' c. f x s = Inr s' \<and> Q (y * WIDTH + x) c \<and> byte_rgb c \<and>
              outp s' = putPixel (outp s) ((y * WIDTH + x) * 4) c"
  shows "\<exists>s'. forE [0..<WIDTH] f s0 = Inr s' \<and> done_upto Q L (Suc y * WIDTH) (outp s')"
proof -
  have "\<exists>s'. forE [0..<WIDTH] f s0 = Inr s' \<and> done_upto Q L (y * WIDTH + WIDTH) (outp s')"
  proof (rule forE_upt_inv [where I = "\<lambda>x s. done_upto Q L (y * WIDTH + x) (outp s)"])
    show "done_upto Q L (y * WIDTH + 0) (outp s0)" using init by simp
  next
    fix x s
    assume x: "x < WIDTH" and inv: "done_upto Q L (y * WIDTH + x) (outp s)"
    from step [OF x, of s] obtain s' c where
      s': "f x s = Inr s'" "Q (y * WIDTH + x) c" "byte_rgb c"
          "outp s' = putPixel (outp s) ((y * WIDTH + x) * 4) c"
      by blast
    have "done_upto Q L (Suc (y * WIDTH + x)) (outp s')"
      using done_upto_step [OF inv s'(2,3)] s'(4) by simp
    then show "\<exists>s'. f x s = Inr s' \<and> done_upto Q L (y * WIDTH + Suc x) (outp s')"
      using s'(1) by auto
  qed
  then show ?thesis by (simp add: add.commute)
qed

section \<open>The flat path\<close>

lemma levelPixel_step:
  assumes "pal \<noteq> []" "list_all byte_rgb pal"
  shows "\<exists>out' c. levelPixel A rgba pal y x out = Inr out' \<and>
           c = pal ! levelIdx A rgba pal (y * WIDTH + x) \<and> byte_rgb c \<and>
           out' = putPixel out ((y * WIDTH + x) * 4) c"
proof -
  define k where "k = levelIdx A rgba pal (y * WIDTH + x)"
  have "pal ! k \<in> set pal" unfolding k_def levelIdx_def by (rule palAt_nearest [OF assms(1)])
  then have byte: "byte_rgb (pal ! k)" using assms(2) by (simp add: list_all_iff)
  have "palAt pal k = Inr (pal ! k)"
    unfolding k_def levelIdx_def by (rule palAt_nearest [OF assms(1)])
  then have "levelPixel A rgba pal y x out = Inr (putPixel out ((y * WIDTH + x) * 4) (pal ! k))"
    unfolding levelPixel_def Let_def k_def levelIdx_def by simp
  then show ?thesis using byte unfolding k_def by blast
qed

lemma quantizeLevelWeb_done:
  assumes "pal \<noteq> []" "list_all byte_rgb pal"
  shows "\<exists>out. quantizeLevelWeb A rgba pal = Inr out \<and>
           done_upto (\<lambda>p c. c = pal ! levelIdx A rgba pal p) (length rgba) (HEIGHT * WIDTH) out"
  unfolding quantizeLevelWeb_def
proof (rule forE_upt_inv [where I = "\<lambda>y out.
    done_upto (\<lambda>p c. c = pal ! levelIdx A rgba pal p) (length rgba) (y * WIDTH) out"])
  show "done_upto (\<lambda>p c. c = pal ! levelIdx A rgba pal p) (length rgba) (0 * WIDTH)
          (replicate (length rgba) 0)"
    by (simp add: done_upto_init)
next
  fix y out
  assume "done_upto (\<lambda>p c. c = pal ! levelIdx A rgba pal p) (length rgba) (y * WIDTH) out"
  then show "\<exists>s'. forE [0..<WIDTH] (levelPixel A rgba pal y) out = Inr s' \<and>
      done_upto (\<lambda>p c. c = pal ! levelIdx A rgba pal p) (length rgba) (Suc y * WIDTH) s'"
    by (rule row_loop [where outp = "\<lambda>s. s"]) (rule levelPixel_step [OF assms])
qed

section \<open>The dithering path\<close>




section \<open>Claims about the quantizer\<close>

lemma exact_on_ints_ideal: "exact_on_ints ideal"
  by (simp add: exact_on_ints_def ideal_def)

lemma byte_rgb_pixelRGB: "byte_rgb (pixelRGB buf p)"
proof -
  have "0 \<le> uint w \<and> uint w \<le> 255" for w :: u8
    using uint_lt2p [of w] by simp
  then show ?thesis by (simp add: byte_rgb_def pixelRGB_def)
qed

lemma levelIdx_in_range:
  assumes "4 * p + 3 < length rgba"
  shows "levelIdx A rgba pal p =
     (case pixelRGB rgba p of (r, g, b) \<Rightarrow> nearestIdx A (lit A r) (lit A g) (lit A b) pal)"
  using assms by (simp add: levelIdx_def pixelRGB_def rd_def toNum_def mult.commute)

lemma first_nearest_unique:
  assumes "first_nearest c pal n k" "first_nearest c pal n k'"
  shows "k = k'"
proof (rule ccontr)
  assume "k \<noteq> k'"
  then consider "k < k'" | "k' < k" by arith
  then show False
  proof cases
    case 1
    then have "dist2 c (pal ! k') < dist2 c (pal ! k)" using assms(2) by (simp add: first_nearest_def)
    moreover have "dist2 c (pal ! k) \<le> dist2 c (pal ! k')" using assms by (simp add: first_nearest_def)
    ultimately show False by simp
  next
    case 2
    then have "dist2 c (pal ! k) < dist2 c (pal ! k')" using assms(1) by (simp add: first_nearest_def)
    moreover have "dist2 c (pal ! k') \<le> dist2 c (pal ! k)" using assms by (simp add: first_nearest_def)
    ultimately show False by simp
  qed
qed

lemma levelIdx_first_nearest:
  assumes "exact_on_ints A" "pal \<noteq> []" "list_all byte_rgb pal" "4 * p + 3 < length rgba"
  shows "first_nearest (pixelRGB rgba p) pal (length pal) (levelIdx A rgba pal p)"
proof -
  obtain r g b where c: "pixelRGB rgba p = (r, g, b)" by (cases "pixelRGB rgba p")
  have "byte_rgb (r, g, b)" using byte_rgb_pixelRGB [of rgba p] c by simp
  from nearestIdx_first_nearest [OF assms(1) this assms(3,2)] show ?thesis
    by (simp add: levelIdx_in_range [OF assms(4)] c)
qed

lemma quantizeLevelWeb_pixel:
  assumes "pal \<noteq> []" "list_all byte_rgb pal" "p < WIDTH * HEIGHT" "4 * p + 3 < length rgba"
  shows "\<exists>out. quantizeLevelWeb A rgba pal = Inr out \<and> length out = length rgba \<and>
           pixelRGB out p = pal ! levelIdx A rgba pal p"
  using quantizeLevelWeb_done [OF assms(1,2), of A rgba] assms(3,4)
  by (auto simp: done_upto_def mult.commute)

text \<open>
  Claim C5. Flat quantization maps each pixel, independently of every other pixel, to the
  palette entry at the least squared Euclidean RGB distance from that pixel, the first such
  entry when several are at that distance. For a non-empty palette of byte triples, a
  pixel \<open>p\<close> of the panel that lies inside the buffer, and an arithmetic that is exact on
  integers up to \<open>2^53\<close> (as doubles are): the call returns a buffer whose pixel \<open>p\<close> is
  the palette entry \<open>k\<close>, where \<open>k\<close> is the first index of least distance; and any
  other buffer with the same pixel \<open>p\<close> gives the same output pixel \<open>p\<close>.
\<close>

theorem quantizeLevelWeb_nearest:
  assumes "exact_on_ints A" and "pal \<noteq> []" and "list_all byte_rgb pal"
    and "p < WIDTH * HEIGHT" and "4 * p + 3 < length rgba"
  shows "\<exists>out k. quantizeLevelWeb A rgba pal = Inr out \<and>
           pixelRGB out p = pal ! k \<and>
           first_nearest (pixelRGB rgba p) pal (length pal) k \<and>
           (\<forall>rgba'. 4 * p + 3 < length rgba' \<and> pixelRGB rgba' p = pixelRGB rgba p \<longrightarrow>
              (\<exists>out'. quantizeLevelWeb A rgba' pal = Inr out' \<and> pixelRGB out' p = pixelRGB out p))"
proof -
  from quantizeLevelWeb_pixel [OF assms(2-5), of A] obtain out where
    out: "quantizeLevelWeb A rgba pal = Inr out" "pixelRGB out p = pal ! levelIdx A rgba pal p"
    by blast
  have fn: "first_nearest (pixelRGB rgba p) pal (length pal) (levelIdx A rgba pal p)"
    by (rule levelIdx_first_nearest [OF assms(1-3,5)])
  have "\<exists>out'. quantizeLevelWeb A rgba' pal = Inr out' \<and> pixelRGB out' p = pixelRGB out p"
    if h: "4 * p + 3 < length rgba'" "pixelRGB rgba' p = pixelRGB rgba p" for rgba'
  proof -
    from quantizeLevelWeb_pixel [OF assms(2-4) h(1), of A] obtain out' where
      out': "quantizeLevelWeb A rgba' pal = Inr out'" "pixelRGB out' p = pal ! levelIdx A rgba' pal p"
      by blast
    have "first_nearest (pixelRGB rgba p) pal (length pal) (levelIdx A rgba' pal p)"
      using levelIdx_first_nearest [OF assms(1-3) h(1)] h(2) by simp
    then have "levelIdx A rgba' pal p = levelIdx A rgba pal p"
      using fn by (rule first_nearest_unique)
    then show ?thesis using out' out(2) by simp
  qed
  then show ?thesis using out fn by blast
qed

lemma first_nearest_red:
  "first_nearest (200, 10, 10) [(0,0,0), (255,255,255), (255,0,0)] (Suc (Suc (Suc 0))) k \<Longrightarrow> k = 2"
proof -
  assume h: "first_nearest (200, 10, 10) [(0,0,0), (255,255,255), (255,0,0)] (Suc (Suc (Suc 0))) k"
  have a: "first_nearest (200, 10, 10) [(0,0,0), (255,255,255), (255,0,0)] (Suc (Suc (Suc 0))) 2"
    by (simp add: first_nearest_def dist2_def less_Suc_eq numeral_3_eq_3 numeral_2_eq_2 all_conj_distrib)
  show ?thesis by (rule first_nearest_unique [OF h a])
qed

text \<open>
  A reddish pixel under the black, white and red palette: red is at distance 3225, black
  at 40200, white at 123075.
\<close>

theorem quantizeLevelWeb_nearest_witness:
  "exact_on_ints ideal \<and> PAL_ARR ! 1 \<noteq> [] \<and> list_all byte_rgb (PAL_ARR ! 1) \<and>
   0 < WIDTH * HEIGHT \<and> 4 * 0 + 3 < length [200, 10, 10, 255 :: u8] \<and>
   (\<exists>out. quantizeLevelWeb ideal [200, 10, 10, 255] (PAL_ARR ! 1) = Inr out \<and>
          pixelRGB out 0 = (255, 0, 0))"
proof -
  have h: "exact_on_ints ideal" "PAL_ARR ! 1 \<noteq> []" "list_all byte_rgb (PAL_ARR ! 1)"
      "0 < WIDTH * HEIGHT" "4 * 0 + 3 < length [200, 10, 10, 255 :: u8]"
    by (simp_all add: exact_on_ints_ideal PAL_ARR_def byte_rgb_def WIDTH_def HEIGHT_def)
  from quantizeLevelWeb_nearest [OF h] obtain out k where
    o: "quantizeLevelWeb ideal [200, 10, 10, 255] (PAL_ARR ! 1) = Inr out"
       "pixelRGB out 0 = PAL_ARR ! 1 ! k"
       "first_nearest (pixelRGB [200, 10, 10, 255] 0) (PAL_ARR ! 1) (length (PAL_ARR ! 1)) k"
    by blast
  have "k = 2" using o(3) by (intro first_nearest_red) (simp add: pixelRGB_def PAL_ARR_def)
  then have "pixelRGB out 0 = (255, 0, 0)" using o(2) by (simp add: PAL_ARR_def)
  then show ?thesis using h o(1) by blast
qed



text \<open>
  Claim C10. For every non-empty palette and all numbers \<open>r\<close>, \<open>g\<close>, \<open>b\<close> whatsoever
  (outside 0..255, \<open>NaN\<close>, in any arithmetic), \<open>nearestIdx\<close> returns an index below the
  palette's length, so the palette lookup that follows does not throw.
\<close>

theorem nearestIdx_in_bounds:
  "pal \<noteq> [] \<Longrightarrow>
     nearestIdx A r g b pal < length pal \<and>
     palAt pal (nearestIdx A r g b pal) = Inr (pal ! nearestIdx A r g b pal)"
  by (simp add: nearestIdx_lt palAt_def)

text \<open>
  A value outside 0..255 under the black, white and red palette: (300, -20, 0) is nearest
  to red, index 2. With \<open>NaN\<close> for a component no comparison succeeds and the index
  stays 0.
\<close>

theorem nearestIdx_in_bounds_witness:
  "PAL_ARR ! 1 \<noteq> [] \<and>
   nearestIdx ideal (Num 300) (Num (- 20)) (Num 0) (PAL_ARR ! 1) < length (PAL_ARR ! 1) \<and>
   palAt (PAL_ARR ! 1) (nearestIdx ideal (Num 300) (Num (- 20)) (Num 0) (PAL_ARR ! 1)) =
     Inr (PAL_ARR ! 1 ! nearestIdx ideal (Num 300) (Num (- 20)) (Num 0) (PAL_ARR ! 1)) \<and>
   nearestIdx ideal (Num 300) (Num (- 20)) (Num 0) (PAL_ARR ! 1) = 2 \<and>
   nearestIdx ideal (Num 300) (Num (- 20)) NaN (PAL_ARR ! 1) = 0"
proof -
  have h: "PAL_ARR ! 1 \<noteq> []" by (simp add: PAL_ARR_def)
  have v: "nearestIdx ideal (Num 300) (Num (- 20)) (Num 0) (PAL_ARR ! 1) = 2"
    "nearestIdx ideal (Num 300) (Num (- 20)) NaN (PAL_ARR ! 1) = 0"
    by (simp_all add: PAL_ARR_def ideal_def nearestIdx_def nearestIdx_step_def Let_def)
  from nearestIdx_in_bounds [OF h, of ideal "Num 300" "Num (- 20)" "Num 0"] show ?thesis
    using h v by simp
qed

section \<open>The left edge of the dithering kernel\<close>

text \<open>In exact arithmetic \<open>add\<close> adds \<open>k/32\<close> of the residual, component by component.\<close>

lemma add_ideal:
  "add ideal (Num a0, Num a1, Num a2) (Num er, Num eg, Num eb) k =
     (Num (a0 + er * (of_int k / 32)), Num (a1 + eg * (of_int k / 32)),
      Num (a2 + eb * (of_int k / 32)))"
  by (simp add: add_def ideal_def Let_def)

lemma diffuse_left_edge:
  "diffuse A 0 e (errA, errB) =
     (errA[1 := add A (errA ! 1) e 7],
      errB[0 := add A (errB ! 0) e 7, 1 := add A (errB[0 := add A (errB ! 0) e 7] ! 1) e 2])"
  by (simp add: diffuse_def WIDTH_def Let_def)

text \<open>
  Claim C1, as amended. In dithered quantization, at the pixel of column 0 of any row, the
  residual \<open>e\<close> (the value with the carried error, minus the chosen palette colour) is
  distributed by \<open>add\<close>, which adds \<open>k/32\<close> of it: with \<open>k = 7\<close> to the next column of
  the same row (\<open>errA[1]\<close>), with \<open>k = 7\<close> to the same column of the next row
  (\<open>errB[0]\<close>), and with \<open>k = 2\<close> to the next column of the next row (\<open>errB[1]\<close>); no
  other accumulator cell changes. The accumulators have one cell per column, as they have
  throughout the run of the quantizer.
\<close>

theorem left_edge_weights:
  assumes "pal \<noteq> []" and "length errA = WIDTH" and "length errB = WIDTH"
    and "carried A src y 0 errA = (r, g, b)"
    and "pal ! nearestIdx A r g b pal = (rr, gg, bb)"
    and "e = (nminus A r (lit A rr), nminus A g (lit A gg), nminus A b (lit A bb))"
  shows "ditherPixel A src pal y 0 (out, errA, errB) =
           Inr (putPixel out (y * WIDTH * 4) (rr, gg, bb),
                errA[1 := add A (errA ! 1) e 7],
                errB[0 := add A (errB ! 0) e 7, 1 := add A (errB ! 1) e 2])"
proof -
  have pa: "palAt pal (nearestIdx A r g b pal) = Inr (rr, gg, bb)"
    using palAt_nearest(1) [OF assms(1), of A r g b] assms(5) by simp
  have nth: "errB[0 := add A (errB ! 0) e 7] ! 1 = errB ! 1" by simp
  show ?thesis
    unfolding ditherPixel_def Let_def prod.case assms(4) pa sum.case assms(6) [symmetric]
      diffuse_left_edge nth by simp
qed

text \<open>
  One left-edge pixel of value (32, 0, 0) on zeroed accumulators, black and white palette:
  black is chosen, the residual is (32, 0, 0), and the cell of the same row receives
  \<open>32 * 7/32 = 7\<close>, the cell below and to the right \<open>32 * 2/32 = 2\<close>.
\<close>

lemma left_edge_run:
  "ditherPixel ideal [32, 0, 0, 255] [(0,0,0), (255,255,255)] 0 0
       ([0, 0, 0, 0], replicate WIDTH (Num 0, Num 0, Num 0), replicate WIDTH (Num 0, Num 0, Num 0)) =
   Inr ([0, 0, 0, 255],
        (replicate WIDTH (Num 0, Num 0, Num 0))[1 := (Num 7, Num 0, Num 0)],
        (replicate WIDTH (Num 0, Num 0, Num 0))[0 := (Num 7, Num 0, Num 0), 1 := (Num 2, Num 0, Num 0)])"
  by (simp add: ditherPixel_def carried_def rd_def toNum_def ideal_def nearestIdx_def
      nearestIdx_step_def palAt_def Let_def WIDTH_def diffuse_def add_def putPixel_def clamp8_def)

text \<open>
  Claim C1 as stated gives weight 2 to the next column of the same row and weight 7 to the
  next column of the next row. The run above has them the other way round.
\<close>

theorem left_edge_claim_fails:
  "carried ideal [32, 0, 0, 255] 0 0 (replicate WIDTH (Num 0, Num 0, Num 0)) = (Num 32, Num 0, Num 0) \<and>
   nearestIdx ideal (Num 32) (Num 0) (Num 0) [(0,0,0), (255,255,255)] = 0 \<and>
   (\<exists>out' errA' errB'.
     ditherPixel ideal [32, 0, 0, 255] [(0,0,0), (255,255,255)] 0 0
       ([0, 0, 0, 0], replicate WIDTH (Num 0, Num 0, Num 0), replicate WIDTH (Num 0, Num 0, Num 0)) =
       Inr (out', errA', errB') \<and>
     errA' ! 1 = (Num 7, Num 0, Num 0) \<and> errB' ! 1 = (Num 2, Num 0, Num 0) \<and>
     errA' ! 1 \<noteq> add ideal (Num 0, Num 0, Num 0) (Num 32, Num 0, Num 0) 2 \<and>
     errB' ! 1 \<noteq> add ideal (Num 0, Num 0, Num 0) (Num 32, Num 0, Num 0) 7)"
proof -
  have "carried ideal [32, 0, 0, 255] 0 0 (replicate WIDTH (Num 0, Num 0, Num 0)) =
      (Num 32, Num 0, Num 0)"
    by (simp add: carried_def rd_def toNum_def ideal_def Let_def WIDTH_def)
  moreover have "nearestIdx ideal (Num 32) (Num 0) (Num 0) [(0,0,0), (255,255,255)] = 0"
    by (simp add: ideal_def nearestIdx_def nearestIdx_step_def Let_def)
  ultimately show ?thesis
    unfolding left_edge_run by (simp add: WIDTH_def add_def ideal_def)
qed

theorem left_edge_weights_witness:
  "([(0,0,0), (255,255,255)] :: rgb list) \<noteq> [] \<and>
   length (replicate WIDTH (Num 0, Num 0, Num 0)) = WIDTH \<and>
   carried ideal [32, 0, 0, 255] 0 0 (replicate WIDTH (Num 0, Num 0, Num 0)) = (Num 32, Num 0, Num 0) \<and>
   ([(0,0,0), (255,255,255)] :: rgb list) !
     nearestIdx ideal (Num 32) (Num 0) (Num 0) [(0,0,0), (255,255,255)] = (0, 0, 0) \<and>
   ditherPixel ideal [32, 0, 0, 255] [(0,0,0), (255,255,255)] 0 0
       ([0, 0, 0, 0], replicate WIDTH (Num 0, Num 0, Num 0), replicate WIDTH (Num 0, Num 0, Num 0)) =
     Inr ([0, 0, 0, 255],
        (replicate WIDTH (Num 0, Num 0, Num 0))[1 := (Num 7, Num 0, Num 0)],
        (replicate WIDTH (Num 0, Num 0, Num 0))[0 := (Num 7, Num 0, Num 0), 1 := (Num 2, Num 0, Num 0)])"
proof -
  have h: "[(0,0,0), (255,255,255)] \<noteq> ([] :: rgb list)"
    "length (replicate WIDTH (Num 0 :: jsnum, Num 0 :: jsnum, Num 0 :: jsnum)) = WIDTH"
    "length (replicate WIDTH (Num 0 :: jsnum, Num 0 :: jsnum, Num 0 :: jsnum)) = WIDTH"
    "carried ideal [32, 0, 0, 255] 0 0 (replicate WIDTH (Num 0, Num 0, Num 0)) = (Num 32, Num 0, Num 0)"
    "([(0,0,0), (255,255,255)] :: rgb list) !
       nearestIdx ideal (Num 32) (Num 0) (Num 0) [(0,0,0), (255,255,255)] = (0, 0, 0)"
    by (simp_all add: carried_def rd_def toNum_def ideal_def nearestIdx_def nearestIdx_step_def
        Let_def WIDTH_def)
  have e: "(Num 32, Num 0, Num 0) = (nminus ideal (Num 32) (lit ideal 0), nminus ideal (Num 0) (lit ideal 0),
      nminus ideal (Num 0) (lit ideal 0))"
    by (simp add: ideal_def)
  from left_edge_weights [OF h e, of "[0, 0, 0, 0]"]
  show ?thesis using h by (simp add: add_def ideal_def putPixel_def clamp8_def WIDTH_def)
qed

section \<open>Palette selection\<close>

text \<open>
  Claim C6. For every panel model and every mode whose bit 0 is clear (modes 0 and 2), the
  palette used is the first two entries of the model's base palette, pure black and pure
  white; the accent entry is dropped.
\<close>

theorem paletteForMode_mono:
  "mode AND 1 \<noteq> 1 \<Longrightarrow>
     paletteForMode model mode = take 2 (PAL_ARR ! basePalIndFor model) \<and>
     paletteForMode model mode = [(0, 0, 0), (255, 255, 255)]"
  by (cases model) (simp_all add: paletteForMode_def PAL_ARR_def)

theorem paletteForMode_mono_witness:
  "(2 :: nat) AND 1 \<noteq> 1 \<and>
   paletteForMode EPaperC 2 = take 2 (PAL_ARR ! basePalIndFor EPaperC) \<and>
   paletteForMode EPaperC 2 = [(0, 0, 0), (255, 255, 255)] \<and>
   PAL_ARR ! basePalIndFor EPaperC = [(0, 0, 0), (255, 255, 255), (220, 180, 0)]"
proof -
  have h: "(2 :: nat) AND 1 \<noteq> 1" by simp
  from paletteForMode_mono [OF h, of EPaperC] show ?thesis using h by (simp add: PAL_ARR_def)
qed

text \<open>
  Every palette \<open>paletteForMode\<close> returns, for any model and mode, is non-empty and of
  byte triples: the quantizers are only called with such a palette.
\<close>

lemma paletteForMode_byte_palette:
  "paletteForMode model mode \<noteq> [] \<and> list_all byte_rgb (paletteForMode model mode)"
  by (cases model; cases "mode AND 1 = 1")
    (simp_all add: paletteForMode_def PAL_ARR_def byte_rgb_def)

section \<open>The plane separator\<close>

lemma map_upt_update:
  "n < t \<Longrightarrow> (map f [0..<t])[n := v] = map (f(n := v)) [0..<t]"
  by (rule nth_equalityI) (auto simp: nth_list_update)

lemma makePlanes_step_eq:
  "makePlanes_step rgba (triColorOf (color model) mode) (accentOf (color model)) i (bb, rb) =
     (if darkBit rgba i = 0 then bb[i := 0] else bb,
      if accentBit rgba model mode i = 0 then rb[i := 0] else rb)"
  by (auto simp: makePlanes_step_def Let_def darkBit_def accentBit_def transparent_def
      pureBlack_def accentRule_def accentOf_def split: option.splits)

lemma makePlanes_fold:
  "n \<le> t \<Longrightarrow>
   fold (makePlanes_step rgba (triColorOf (color model) mode) (accentOf (color model))) [0..<n]
     (replicate t 1, replicate t 1) =
   (map (\<lambda>i. if i < n then darkBit rgba i else 1) [0..<t],
    map (\<lambda>i. if i < n then accentBit rgba model mode i else 1) [0..<t])"
proof (induction n)
  case 0
  show ?case by (simp add: map_replicate_const)
next
  case (Suc n)
  then have n: "n < t" by simp
  have d: "darkBit rgba n = 0 \<or> darkBit rgba n = 1" and a: "accentBit rgba model mode n = 0 \<or> accentBit rgba model mode n = 1"
    by (simp_all add: darkBit_def accentBit_def)
  have 1: "(if darkBit rgba n = 0
            then (map (\<lambda>i. if i < n then darkBit rgba i else 1) [0..<t])[n := 0]
            else map (\<lambda>i. if i < n then darkBit rgba i else 1) [0..<t]) =
          map (\<lambda>i. if i < Suc n then darkBit rgba i else 1) [0..<t]"
    using d n by (auto simp: map_upt_update less_Suc_eq intro!: nth_equalityI)
  have 2: "(if accentBit rgba model mode n = 0
            then (map (\<lambda>i. if i < n then accentBit rgba model mode i else 1) [0..<t])[n := 0]
            else map (\<lambda>i. if i < n then accentBit rgba model mode i else 1) [0..<t]) =
          map (\<lambda>i. if i < Suc n then accentBit rgba model mode i else 1) [0..<t]"
    using a n by (auto simp: map_upt_update less_Suc_eq intro!: nth_equalityI)
  show ?case using Suc n by (simp add: makePlanes_step_eq 1 2)
qed

lemma makePlanes_eq:
  "makePlanes rgba model mode =
     (map (darkBit rgba) [0..<WIDTH * HEIGHT], map (accentBit rgba model mode) [0..<WIDTH * HEIGHT])"
  unfolding makePlanes_def Let_def by (simp add: makePlanes_fold cong: map_cong)

lemma panel_pixels: "0 < WIDTH * HEIGHT" "1 < WIDTH * HEIGHT"
  by (simp_all add: WIDTH_def HEIGHT_def)

text \<open>
  Claim C2. For every buffer, model and mode, and every pixel index of the panel, the two
  planes hold bits (0 or 1) that are never both 0: ink on the dark plane comes with 1 on
  the accent plane and the other way round, and a pixel that is neither pure black nor
  matched by the accent rule has 1 on both planes.
\<close>

theorem planes_exclusive:
  assumes "makePlanes rgba model mode = (blackBits, ryBits)" and "i < WIDTH * HEIGHT"
  shows "length blackBits = WIDTH * HEIGHT \<and> length ryBits = WIDTH * HEIGHT \<and>
         (blackBits ! i = 0 \<or> blackBits ! i = 1) \<and> (ryBits ! i = 0 \<or> ryBits ! i = 1) \<and>
         \<not> (blackBits ! i = 0 \<and> ryBits ! i = 0) \<and>
         (blackBits ! i = 0 \<longrightarrow> ryBits ! i = 1) \<and>
         (ryBits ! i = 0 \<longrightarrow> blackBits ! i = 1) \<and>
         (\<not> pureBlack rgba i \<and> \<not> accentRule rgba model mode i \<longrightarrow>
            blackBits ! i = 1 \<and> ryBits ! i = 1)"
proof -
  have b: "blackBits = map (darkBit rgba) [0..<WIDTH * HEIGHT]"
    and r: "ryBits = map (accentBit rgba model mode) [0..<WIDTH * HEIGHT]"
    using assms(1) by (simp_all add: makePlanes_eq)
  show ?thesis using assms(2) unfolding b r by (simp add: darkBit_def accentBit_def)
qed

text \<open>Two pixels on a red-accent panel in a colour mode: one black, one red.\<close>

theorem planes_exclusive_witness:
  "makePlanes [0, 0, 0, 255, 255, 0, 0, 255] EPaperB (Some 3) =
     (map (darkBit [0, 0, 0, 255, 255, 0, 0, 255]) [0..<WIDTH * HEIGHT],
      map (accentBit [0, 0, 0, 255, 255, 0, 0, 255] EPaperB (Some 3)) [0..<WIDTH * HEIGHT]) \<and>
   1 < WIDTH * HEIGHT \<and>
   map (darkBit [0, 0, 0, 255, 255, 0, 0, 255]) [0..<WIDTH * HEIGHT] ! 0 = 0 \<and>
   map (accentBit [0, 0, 0, 255, 255, 0, 0, 255] EPaperB (Some 3)) [0..<WIDTH * HEIGHT] ! 0 = 1 \<and>
   map (darkBit [0, 0, 0, 255, 255, 0, 0, 255]) [0..<WIDTH * HEIGHT] ! 1 = 1 \<and>
   map (accentBit [0, 0, 0, 255, 255, 0, 0, 255] EPaperB (Some 3)) [0..<WIDTH * HEIGHT] ! 1 = 0"
proof -
  let ?rgba = "[0, 0, 0, 255, 255, 0, 0, 255] :: u8 list"
  let ?bb = "map (darkBit ?rgba) [0..<WIDTH * HEIGHT]"
  let ?rb = "map (accentBit ?rgba EPaperB (Some 3)) [0..<WIDTH * HEIGHT]"
  have h: "makePlanes ?rgba EPaperB (Some 3) = (?bb, ?rb)"
    by (rule makePlanes_eq)
  have "darkBit ?rgba 0 = 0"
    by (simp add: darkBit_def transparent_def pureBlack_def rdn_def rd_def)
  then have d0: "?bb ! 0 = 0" using panel_pixels(1) by simp
  have "accentBit ?rgba EPaperB (Some 3) 1 = 0"
    by (simp add: accentBit_def accentRule_def accentOf_def triColorOf_def
        transparent_def pureBlack_def rdn_def rd_def)
  then have a1: "?rb ! 1 = 0" using panel_pixels(2) by simp
  have a0: "?rb ! 0 = 1" using planes_exclusive [OF h panel_pixels(1)] d0 by blast
  have d1: "?bb ! 1 = 1" using planes_exclusive [OF h panel_pixels(2)] a1 by blast
  show ?thesis using h panel_pixels(2) d0 a0 d1 a1 by blast
qed



text \<open>
  The test is \<open>a === 0\<close>: a black pixel with alpha 1 is not skipped and gets ink on the
  dark plane.
\<close>

lemma alpha_one_black_inked:
  "fst (makePlanes [0, 0, 0, 1] model mode) ! 0 = 0"
proof -
  have "darkBit [0, 0, 0, 1] 0 = 0"
    by (simp add: darkBit_def transparent_def pureBlack_def rdn_def rd_def)
  then show ?thesis using panel_pixels(1) by (simp add: makePlanes_eq)
qed

section \<open>The bit packer\<close>

lemma bitAt_append_old: "i < length xs \<Longrightarrow> bitAt (xs @ ys) i = bitAt xs i"
  by (simp add: bitAt_def nth_append)

lemma bitAt_snoc_new: "bitAt (xs @ [x]) (length xs) = unat (x AND 1)"
  by (simp add: bitAt_def)

lemma nibblePart_append:
  "4 * k + j \<le> length xs \<Longrightarrow> nibblePart (xs @ ys) k j = nibblePart xs k j"
  unfolding nibblePart_def by (rule sum.cong) (simp_all add: bitAt_append_old)

lemma nibblePart_4: "nibblePart bits k 4 = nibbleAt bits k"
  by (simp add: nibblePart_def nibbleAt_def numeral_eq_Suc push_bit_eq_mult)

lemma nibblePart_pad:
  "length bits \<le> 4 * k + j \<Longrightarrow> j \<le> 4 \<Longrightarrow> nibblePart bits k j = nibblePart bits k 4"
proof -
  assume a: "length bits \<le> 4 * k + j" "j \<le> 4"
  have "nibblePart bits k 4 = (\<Sum>t\<in>{..<j} \<union> {j..<4}. push_bit (3 - t) (bitAt bits (4 * k + t)))"
    unfolding nibblePart_def using a(2) by (simp add: ivl_disj_un)
  also have "\<dots> = nibblePart bits k j + (\<Sum>t\<in>{j..<4}. push_bit (3 - t) (bitAt bits (4 * k + t)))"
    unfolding nibblePart_def by (rule sum.union_disjoint) auto
  also have "(\<Sum>t\<in>{j..<4}. push_bit (3 - t) (bitAt bits (4 * k + t))) = 0"
    using a(1) by (simp add: bitAt_def)
  finally show ?thesis by simp
qed

text \<open>The state of the loop after the bits \<open>xs\<close>.\<close>

lemma packToChars_fold:
  "fold packToChars_step xs ([], 0, 0) =
     (map (\<lambda>k. char_of (97 + nibbleAt xs k)) [0..<length xs div 4],
      nibblePart xs (length xs div 4) (length xs mod 4),
      length xs mod 4)"
proof (induction xs rule: rev_induct)
  case Nil
  show ?case by (simp add: nibblePart_def)
next
  case (snoc x xs)
  define n where "n = length xs"
  define q where "q = n div 4"
  define j where "j = n mod 4"
  have n: "n = 4 * q + j" and j: "j < 4" by (simp_all add: q_def j_def)
  have old: "map (\<lambda>k. char_of (97 + nibbleAt xs k)) [0..<q] =
             map (\<lambda>k. char_of (97 + nibbleAt (xs @ [x]) k)) [0..<q]"
  proof (rule map_cong [OF refl])
    fix k assume "k \<in> set [0..<q]"
    then have "4 * k + 4 \<le> length xs" using n by (simp add: n_def)
    then have "nibblePart (xs @ [x]) k 4 = nibblePart xs k 4" by (rule nibblePart_append)
    then show "char_of (97 + nibbleAt xs k) = char_of (97 + nibbleAt (xs @ [x]) k)"
      by (simp add: nibblePart_4)
  qed
  have acc: "nibblePart xs q j + push_bit (3 - j) (unat (x AND 1)) = nibblePart (xs @ [x]) q (Suc j)"
  proof -
    have "nibblePart (xs @ [x]) q j = nibblePart xs q j"
      using n by (intro nibblePart_append) (simp add: n_def)
    moreover have "bitAt (xs @ [x]) (4 * q + j) = unat (x AND 1)"
      using n bitAt_snoc_new [of xs x] by (simp add: n_def)
    ultimately show ?thesis by (simp add: nibblePart_def)
  qed
  have step: "fold packToChars_step (xs @ [x]) ([], 0, 0) =
      (if Suc j = 4
       then (map (\<lambda>k. char_of (97 + nibbleAt (xs @ [x]) k)) [0..<q] @
               [char_of (97 + nibblePart (xs @ [x]) q (Suc j))], 0, 0)
       else (map (\<lambda>k. char_of (97 + nibbleAt (xs @ [x]) k)) [0..<q],
             nibblePart (xs @ [x]) q (Suc j), Suc j))"
  proof -
    have "fold packToChars_step xs ([], 0, 0) =
        (map (\<lambda>k. char_of (97 + nibbleAt (xs @ [x]) k)) [0..<q], nibblePart xs q j, j)"
      using snoc.IH unfolding n_def [symmetric] q_def [symmetric] j_def [symmetric] old .
    then have "fold packToChars_step (xs @ [x]) ([], 0, 0) =
        packToChars_step x
          (map (\<lambda>k. char_of (97 + nibbleAt (xs @ [x]) k)) [0..<q], nibblePart xs q j, j)"
      by simp
    then show ?thesis unfolding packToChars_step_def prod.case Let_def acc by simp
  qed
  show ?case
  proof (cases "Suc j = 4")
    case True
    then have d: "length (xs @ [x]) div 4 = Suc q" and m: "length (xs @ [x]) mod 4 = 0"
      using n by (simp_all add: n_def)
    have z: "nibblePart (xs @ [x]) (Suc q) 0 = 0" by (simp add: nibblePart_def)
    show ?thesis unfolding step d m z using True
      by (simp add: nibblePart_4)
  next
    case False
    then have d: "length (xs @ [x]) div 4 = q" and m: "length (xs @ [x]) mod 4 = Suc j"
      using n j by (simp_all add: n_def)
    show ?thesis unfolding step d m using False by simp
  qed
qed

lemma packToChars_eq:
  "packToChars bits = map (\<lambda>k. char_of (97 + nibbleAt bits k)) [0..<(length bits + 3) div 4]"
proof (cases "length bits mod 4 = 0")
  case True
  then have "(length bits + 3) div 4 = length bits div 4" by presburger
  then show ?thesis using True by (simp add: packToChars_def packToChars_fold)
next
  case False
  then have d: "(length bits + 3) div 4 = Suc (length bits div 4)" by presburger
  have "nibblePart bits (length bits div 4) (length bits mod 4) = nibbleAt bits (length bits div 4)"
    unfolding nibblePart_4 [symmetric] by (rule nibblePart_pad) simp_all
  then show ?thesis using False by (simp add: packToChars_def packToChars_fold d)
qed

lemma bitAt_le: "bitAt bits i \<le> 1"
proof -
  have "unat (w AND 1) \<le> 1" for w :: u8
    using word_and_le1 [of w 1] by (simp add: word_le_nat_alt)
  then show ?thesis by (simp add: bitAt_def)
qed

lemma nibbleAt_le: "nibbleAt bits k \<le> 15"
  using bitAt_le [of bits "4 * k"] bitAt_le [of bits "4 * k + 1"] bitAt_le [of bits "4 * k + 2"]
    bitAt_le [of bits "4 * k + 3"]
  by (simp add: nibbleAt_def)

text \<open>
  Claim C7. For a plane of \<open>n\<close> bits the packer returns \<open>ceil(n/4)\<close> characters;
  character \<open>k\<close> has the code 97 plus the nibble of the bits \<open>4k .. 4k+3\<close>, the first
  of them most significant, and a bit past the end of the plane counts as 0, so that a last
  partial group is one character of its own. Every nibble is at most 15.
\<close>

theorem packToChars_nibbles:
  "length (packToChars bits) = (length bits + 3) div 4 \<and>
   (\<forall>k < length (packToChars bits).
      packToChars bits ! k = char_of (97 + nibbleAt bits k) \<and> nibbleAt bits k \<le> 15)"
  by (simp add: packToChars_eq nibbleAt_le)

text \<open>Six bits: the group 1011 is 11, the letter l; the partial group 01 is 0100, the letter e.\<close>


theorem packToChars_nibbles_witness:
  "length (packToChars [1, 0, 1, 1, 0, 1]) = 2 \<and>
   packToChars [1, 0, 1, 1, 0, 1] ! 0 = CHR ''l'' \<and>
   packToChars [1, 0, 1, 1, 0, 1] ! 1 = CHR ''e'' \<and>
   nibbleAt [1, 0, 1, 1, 0, 1] 0 = 11 \<and> nibbleAt [1, 0, 1, 1, 0, 1] 1 = 4"
proof -
  let ?bits = "[1, 0, 1, 1, 0, 1] :: u8 list"
  have l: "length (packToChars ?bits) = 2" using packToChars_nibbles [of ?bits] by simp
  have n0: "nibbleAt ?bits 0 = 11" and n1: "nibbleAt ?bits 1 = 4"
    by (simp_all add: nibbleAt_def bitAt_def)
  have "packToChars ?bits ! 0 = char_of (97 + nibbleAt ?bits 0)"
    and "packToChars ?bits ! 1 = char_of (97 + nibbleAt ?bits 1)"
    using packToChars_nibbles [of ?bits] l by simp_all
  moreover have "char_of (108 :: nat) = CHR ''l''" and "char_of (101 :: nat) = CHR ''e''"
    by code_simp+
  ultimately show ?thesis using l n0 n1 by simp
qed

section \<open>The geometry reorderer\<close>

lemma geometry:
  "XSTR = LEFT_NIBBLES + RIGHT_NIBBLES" "0 < LEFT_NIBBLES" "0 < RIGHT_NIBBLES"
  "TOP_HALF_ROWS \<le> HEIGHT" "XSTR * HEIGHT = 320784"
  by (simp_all add: XSTR_def WIDTH_def HEIGHT_def TOP_HALF_ROWS_def LEFT_NIBBLES_def RIGHT_NIBBLES_def)

lemma divmod_block:
  "c < len \<Longrightarrow> (r * len + c) div len = r \<and> (r * len + c) mod len = (c::nat)"
  by simp

lemma fold_append_concat:
  "fold (\<lambda>i out. out @ f i) is out0 = out0 @ concat (map f is)"
  by (induction "is" arbitrary: out0) simp_all

lemma length_concat_uniform:
  "(\<And>i. i < n \<Longrightarrow> length (f i) = len) \<Longrightarrow> length (concat (map f [0..<n])) = n * len"
  by (induction n) simp_all

lemma nth_concat_uniform:
  assumes "\<And>i. i < n \<Longrightarrow> length (f i) = len" and "k < n * len"
  shows "concat (map f [0..<n]) ! k = f (k div len) ! (k mod len)"
  using assms
proof (induction n)
  case 0
  then show ?case by simp
next
  case (Suc n)
  have len: "length (concat (map f [0..<n])) = n * len"
    using Suc.prems(1) by (intro length_concat_uniform) simp
  have pos: "0 < len" using Suc.prems(2) by (cases len) simp_all
  show ?case
  proof (cases "k < n * len")
    case True
    then show ?thesis using Suc len by (simp add: nth_append)
  next
    case False
    then have ge: "n * len \<le> k" by simp
    have lt: "k - n * len < len" using Suc.prems(2) ge by simp
    have "k = n * len + (k - n * len)" using ge by simp
    then have "k div len = n \<and> k mod len = k - n * len"
      using divmod_block [OF lt, of n] by simp
    then show ?thesis using False len by (simp add: nth_append)
  qed
qed

lemma length_slice: "b \<le> length s \<Longrightarrow> length (slice_str s a b) = b - a"
  by (simp add: slice_str_def)

lemma nth_slice: "c < b - a \<Longrightarrow> b \<le> length s \<Longrightarrow> slice_str s a b ! c = s ! (a + c)"
  by (simp add: slice_str_def)

lemma upt_shift: "t \<le> h \<Longrightarrow> [t..<h] = map (\<lambda>i. t + i) [0..<h - t]"
  using map_add_upt [of t "h - t"] by (simp add: add.commute)

lemma row_end:
  assumes "length msg = XSTR * HEIGHT" "i < HEIGHT"
  shows "i * XSTR + XSTR \<le> length msg"
proof -
  have "Suc i * XSTR \<le> HEIGHT * XSTR" using assms(2) by (intro mult_le_mono1) simp
  then show ?thesis using assms(1) by (simp add: mult.commute)
qed

text \<open>The left and the right part of row \<open>i\<close> of the packed stream.\<close>

lemma left_part:
  assumes "length msg = XSTR * HEIGHT" "i < HEIGHT"
  shows "length (slice_str msg (i * XSTR) (i * XSTR + LEFT_NIBBLES)) = LEFT_NIBBLES"
    and "c < LEFT_NIBBLES \<Longrightarrow>
           slice_str msg (i * XSTR) (i * XSTR + LEFT_NIBBLES) ! c = msg ! (i * XSTR + c)"
  using row_end [OF assms] geometry(1) by (simp_all add: length_slice nth_slice)

lemma right_part:
  assumes "length msg = XSTR * HEIGHT" "i < HEIGHT"
  shows "length (slice_str msg (i * XSTR + LEFT_NIBBLES) (i * XSTR + XSTR)) = RIGHT_NIBBLES"
    and "c < RIGHT_NIBBLES \<Longrightarrow>
           slice_str msg (i * XSTR + LEFT_NIBBLES) (i * XSTR + XSTR) ! c =
           msg ! (i * XSTR + (LEFT_NIBBLES + c))"
  using row_end [OF assms] geometry(1) by (simp_all add: length_slice nth_slice add.assoc)

text \<open>A block: the parts \<open>f (t + 0), f (t + 1), ...\<close> of \<open>n\<close> rows, each of length \<open>len\<close>.\<close>

lemma block:
  assumes "\<And>i. i < n \<Longrightarrow> length (f (t + i)) = len"
  shows "length (concat (map f [t..<t + n])) = n * len"
    and "k < n * len \<Longrightarrow> concat (map f [t..<t + n]) ! k = f (t + k div len) ! (k mod len)"
proof -
  have e: "map f [t..<t + n] = map (\<lambda>i. f (t + i)) [0..<n]"
    using upt_shift [of t "t + n"] by (simp add: comp_def)
  show "length (concat (map f [t..<t + n])) = n * len"
    unfolding e using assms by (rule length_concat_uniform)
  show "k < n * len \<Longrightarrow> concat (map f [t..<t + n]) ! k = f (t + k div len) ! (k mod len)"
    unfolding e using assms by (rule nth_concat_uniform)
qed

lemma reorderFor1248_blocks:
  assumes "length msg = XSTR * HEIGHT"
  shows "reorderFor1248 msg = Inr
     (concat (map (\<lambda>i. slice_str msg (i * XSTR) (i * XSTR + LEFT_NIBBLES)) [0..<0 + TOP_HALF_ROWS]) @
      concat (map (\<lambda>i. slice_str msg (i * XSTR + LEFT_NIBBLES) (i * XSTR + XSTR)) [0..<0 + TOP_HALF_ROWS]) @
      concat (map (\<lambda>i. slice_str msg (i * XSTR) (i * XSTR + LEFT_NIBBLES))
         [TOP_HALF_ROWS..<TOP_HALF_ROWS + (HEIGHT - TOP_HALF_ROWS)]) @
      concat (map (\<lambda>i. slice_str msg (i * XSTR + LEFT_NIBBLES) (i * XSTR + XSTR))
         [TOP_HALF_ROWS..<TOP_HALF_ROWS + (HEIGHT - TOP_HALF_ROWS)]))"
  using assms geometry(4) by (simp add: reorderFor1248_def Let_def fold_append_concat)

lemma left_block:
  assumes "length msg = XSTR * HEIGHT" "t + n \<le> HEIGHT"
  shows "length (concat (map (\<lambda>i. slice_str msg (i * XSTR) (i * XSTR + LEFT_NIBBLES)) [t..<t + n])) =
           n * LEFT_NIBBLES"
    and "k < n * LEFT_NIBBLES \<Longrightarrow>
           concat (map (\<lambda>i. slice_str msg (i * XSTR) (i * XSTR + LEFT_NIBBLES)) [t..<t + n]) ! k =
           msg ! ((t + k div LEFT_NIBBLES) * XSTR + k mod LEFT_NIBBLES)"
proof -
  let ?f = "\<lambda>i. slice_str msg (i * XSTR) (i * XSTR + LEFT_NIBBLES)"
  have len: "length (?f (t + i)) = LEFT_NIBBLES" if "i < n" for i
    using that assms(2) by (intro left_part(1) [OF assms(1)]) simp
  show "length (concat (map ?f [t..<t + n])) = n * LEFT_NIBBLES"
    using len by (rule block(1))
  assume k: "k < n * LEFT_NIBBLES"
  then have r: "k div LEFT_NIBBLES < n" by (simp add: less_mult_imp_div_less)
  have c: "k mod LEFT_NIBBLES < LEFT_NIBBLES" using geometry(2) by simp
  have "concat (map ?f [t..<t + n]) ! k = ?f (t + k div LEFT_NIBBLES) ! (k mod LEFT_NIBBLES)"
    using len k by (rule block(2))
  also have "\<dots> = msg ! ((t + k div LEFT_NIBBLES) * XSTR + k mod LEFT_NIBBLES)"
    using r assms(2) c by (intro left_part(2) [OF assms(1)]) simp_all
  finally show "concat (map ?f [t..<t + n]) ! k =
      msg ! ((t + k div LEFT_NIBBLES) * XSTR + k mod LEFT_NIBBLES)" .
qed

lemma right_block:
  assumes "length msg = XSTR * HEIGHT" "t + n \<le> HEIGHT"
  shows "length (concat (map (\<lambda>i. slice_str msg (i * XSTR + LEFT_NIBBLES) (i * XSTR + XSTR)) [t..<t + n])) =
           n * RIGHT_NIBBLES"
    and "k < n * RIGHT_NIBBLES \<Longrightarrow>
           concat (map (\<lambda>i. slice_str msg (i * XSTR + LEFT_NIBBLES) (i * XSTR + XSTR)) [t..<t + n]) ! k =
           msg ! ((t + k div RIGHT_NIBBLES) * XSTR + (LEFT_NIBBLES + k mod RIGHT_NIBBLES))"
proof -
  let ?f = "\<lambda>i. slice_str msg (i * XSTR + LEFT_NIBBLES) (i * XSTR + XSTR)"
  have len: "length (?f (t + i)) = RIGHT_NIBBLES" if "i < n" for i
    using that assms(2) by (intro right_part(1) [OF assms(1)]) simp
  show "length (concat (map ?f [t..<t + n])) = n * RIGHT_NIBBLES"
    using len by (rule block(1))
  assume k: "k < n * RIGHT_NIBBLES"
  then have r: "k div RIGHT_NIBBLES < n" by (simp add: less_mult_imp_div_less)
  have c: "k mod RIGHT_NIBBLES < RIGHT_NIBBLES" using geometry(3) by simp
  have "concat (map ?f [t..<t + n]) ! k = ?f (t + k div RIGHT_NIBBLES) ! (k mod RIGHT_NIBBLES)"
    using len k by (rule block(2))
  also have "\<dots> = msg ! ((t + k div RIGHT_NIBBLES) * XSTR + (LEFT_NIBBLES + k mod RIGHT_NIBBLES))"
    using r assms(2) c by (intro right_part(2) [OF assms(1)]) simp_all
  finally show "concat (map ?f [t..<t + n]) ! k =
      msg ! ((t + k div RIGHT_NIBBLES) * XSTR + (LEFT_NIBBLES + k mod RIGHT_NIBBLES))" .
qed

lemma thresholds:
  "TOP_HALF_ROWS * XSTR = TOP_HALF_ROWS * LEFT_NIBBLES + TOP_HALF_ROWS * RIGHT_NIBBLES"
  "XSTR * HEIGHT = TOP_HALF_ROWS * XSTR + (HEIGHT - TOP_HALF_ROWS) * LEFT_NIBBLES +
      (HEIGHT - TOP_HALF_ROWS) * RIGHT_NIBBLES"
proof -
  show 1: "TOP_HALF_ROWS * XSTR = TOP_HALF_ROWS * LEFT_NIBBLES + TOP_HALF_ROWS * RIGHT_NIBBLES"
    by (simp add: geometry(1) distrib_left)
  have "XSTR * HEIGHT = (TOP_HALF_ROWS + (HEIGHT - TOP_HALF_ROWS)) * XSTR"
    using geometry(4) by (simp add: mult.commute)
  also have "\<dots> = TOP_HALF_ROWS * XSTR + (HEIGHT - TOP_HALF_ROWS) * XSTR"
    by (rule distrib_right)
  also have "(HEIGHT - TOP_HALF_ROWS) * XSTR =
      (HEIGHT - TOP_HALF_ROWS) * LEFT_NIBBLES + (HEIGHT - TOP_HALF_ROWS) * RIGHT_NIBBLES"
    by (simp add: geometry(1) distrib_left)
  finally show "XSTR * HEIGHT = TOP_HALF_ROWS * XSTR + (HEIGHT - TOP_HALF_ROWS) * LEFT_NIBBLES +
      (HEIGHT - TOP_HALF_ROWS) * RIGHT_NIBBLES" by simp
qed

lemma reorderFor1248_nth:
  assumes len: "length msg = XSTR * HEIGHT"
  shows "\<exists>out. reorderFor1248 msg = Inr out \<and> length out = XSTR * HEIGHT \<and>
           (\<forall>i < XSTR * HEIGHT. out ! i = msg ! srcIndex i)"
proof -
  let ?lf = "\<lambda>i. slice_str msg (i * XSTR) (i * XSTR + LEFT_NIBBLES)"
  let ?rf = "\<lambda>i. slice_str msg (i * XSTR + LEFT_NIBBLES) (i * XSTR + XSTR)"
  define A where "A = concat (map ?lf [0..<0 + TOP_HALF_ROWS])"
  define B where "B = concat (map ?rf [0..<0 + TOP_HALF_ROWS])"
  define C where "C = concat (map ?lf [TOP_HALF_ROWS..<TOP_HALF_ROWS + (HEIGHT - TOP_HALF_ROWS)])"
  define D where "D = concat (map ?rf [TOP_HALF_ROWS..<TOP_HALF_ROWS + (HEIGHT - TOP_HALF_ROWS)])"
  have top: "0 + TOP_HALF_ROWS \<le> HEIGHT" and bot: "TOP_HALF_ROWS + (HEIGHT - TOP_HALF_ROWS) \<le> HEIGHT"
    using geometry(4) by simp_all
  note a = left_block [OF len top, folded A_def]
  note b = right_block [OF len top, folded B_def]
  note c = left_block [OF len bot, folded C_def]
  note d = right_block [OF len bot, folded D_def]
  have out: "reorderFor1248 msg = Inr (A @ B @ C @ D)"
    unfolding A_def B_def C_def D_def by (rule reorderFor1248_blocks [OF len])
  have total: "length (A @ B @ C @ D) = XSTR * HEIGHT"
    using a(1) b(1) c(1) d(1) thresholds by simp
  have "(A @ B @ C @ D) ! i = msg ! srcIndex i" if i: "i < XSTR * HEIGHT" for i
  proof -
    consider (A) "i < TOP_HALF_ROWS * LEFT_NIBBLES"
      | (B) "TOP_HALF_ROWS * LEFT_NIBBLES \<le> i" "i < TOP_HALF_ROWS * XSTR"
      | (C) "TOP_HALF_ROWS * XSTR \<le> i"
            "i < TOP_HALF_ROWS * XSTR + (HEIGHT - TOP_HALF_ROWS) * LEFT_NIBBLES"
      | (D) "TOP_HALF_ROWS * XSTR + (HEIGHT - TOP_HALF_ROWS) * LEFT_NIBBLES \<le> i"
      by linarith
    then show ?thesis
    proof cases
      case A
      then have "(A @ B @ C @ D) ! i = A ! i" using a(1) by (simp add: nth_append)
      then show ?thesis using a(2) [OF A] A by (simp add: srcIndex_def)
    next
      case B
      define j where "j = i - TOP_HALF_ROWS * LEFT_NIBBLES"
      have j: "j < TOP_HALF_ROWS * RIGHT_NIBBLES" using B thresholds(1) by (simp add: j_def)
      have i_eq: "i = length A + j" using B(1) a(1) by (simp add: j_def)
      have "(A @ (B @ C @ D)) ! i = (B @ C @ D) ! j"
        unfolding i_eq by (rule nth_append_length_plus)
      also have "\<dots> = B ! j" using j b(1) by (simp add: nth_append)
      finally have "(A @ B @ C @ D) ! i = B ! j" .
      moreover have "\<not> i < TOP_HALF_ROWS * LEFT_NIBBLES" using B by simp
      ultimately show ?thesis using b(2) [OF j] B(2) by (simp add: srcIndex_def j_def Let_def)
    next
      case C
      define j where "j = i - TOP_HALF_ROWS * XSTR"
      have j: "j < (HEIGHT - TOP_HALF_ROWS) * LEFT_NIBBLES" using C by (simp add: j_def)
      have ab: "length (A @ B) = TOP_HALF_ROWS * XSTR" using a(1) b(1) thresholds(1) by simp
      have i_eq: "i = length (A @ B) + j" using C(1) unfolding ab by (simp add: j_def)
      have "((A @ B) @ (C @ D)) ! i = (C @ D) ! j"
        unfolding i_eq by (rule nth_append_length_plus)
      also have "\<dots> = C ! j" using j c(1) by (simp add: nth_append)
      finally have "(A @ B @ C @ D) ! i = C ! j" by simp
      moreover have "\<not> i < TOP_HALF_ROWS * LEFT_NIBBLES" "\<not> i < TOP_HALF_ROWS * XSTR"
        using C thresholds(1) by simp_all
      ultimately show ?thesis using c(2) [OF j] C(2) by (simp add: srcIndex_def j_def Let_def)
    next
      case D
      define j where "j = i - (TOP_HALF_ROWS * XSTR + (HEIGHT - TOP_HALF_ROWS) * LEFT_NIBBLES)"
      have j: "j < (HEIGHT - TOP_HALF_ROWS) * RIGHT_NIBBLES" using D i thresholds(2) by (simp add: j_def)
      have abc: "length (A @ B @ C) = TOP_HALF_ROWS * XSTR + (HEIGHT - TOP_HALF_ROWS) * LEFT_NIBBLES"
        using a(1) b(1) c(1) thresholds(1) by simp
      have i_eq: "i = length (A @ B @ C) + j" using D unfolding abc by (simp add: j_def)
      have "((A @ B @ C) @ D) ! i = D ! j"
        unfolding i_eq by (rule nth_append_length_plus)
      then have "(A @ B @ C @ D) ! i = D ! j" by simp
      moreover have "\<not> i < TOP_HALF_ROWS * LEFT_NIBBLES" "\<not> i < TOP_HALF_ROWS * XSTR"
        "\<not> i < TOP_HALF_ROWS * XSTR + (HEIGHT - TOP_HALF_ROWS) * LEFT_NIBBLES"
        using D thresholds(1) by simp_all
      ultimately show ?thesis using d(2) [OF j] by (simp add: srcIndex_def j_def Let_def)
    qed
  qed
  then show ?thesis using out total by blast
qed

lemma rc_bound: "r < HEIGHT \<Longrightarrow> c < XSTR \<Longrightarrow> r * XSTR + c < XSTR * HEIGHT"
proof -
  assume r: "r < HEIGHT" and c: "c < XSTR"
  have "r * XSTR + c < Suc r * XSTR" using c by simp
  also have "\<dots> \<le> HEIGHT * XSTR" using r by (intro mult_le_mono1) simp
  finally show ?thesis by (simp add: mult.commute)
qed

lemma dstIndex_rc:
  "c < XSTR \<Longrightarrow> dstIndex (r * XSTR + c) =
     (if r < TOP_HALF_ROWS then
        (if c < LEFT_NIBBLES then r * LEFT_NIBBLES + c
         else TOP_HALF_ROWS * LEFT_NIBBLES + r * RIGHT_NIBBLES + (c - LEFT_NIBBLES))
      else
        (if c < LEFT_NIBBLES
         then TOP_HALF_ROWS * XSTR + (r - TOP_HALF_ROWS) * LEFT_NIBBLES + c
         else TOP_HALF_ROWS * XSTR + (HEIGHT - TOP_HALF_ROWS) * LEFT_NIBBLES +
              (r - TOP_HALF_ROWS) * RIGHT_NIBBLES + (c - LEFT_NIBBLES)))"
  unfolding dstIndex_def Let_def using divmod_block [of c XSTR r] by simp

text \<open>
  Every output position reads a position of the packed stream, and \<open>dstIndex\<close> leads
  back from it.
\<close>

lemma srcIndex_inverse:
  assumes i: "i < XSTR * HEIGHT"
  shows "srcIndex i < XSTR * HEIGHT \<and> dstIndex (srcIndex i) = i"
proof -
  have lx: "LEFT_NIBBLES < XSTR" using geometry(1,3) by linarith
  consider (A) "i < TOP_HALF_ROWS * LEFT_NIBBLES"
    | (B) "TOP_HALF_ROWS * LEFT_NIBBLES \<le> i" "i < TOP_HALF_ROWS * XSTR"
    | (C) "TOP_HALF_ROWS * XSTR \<le> i"
          "i < TOP_HALF_ROWS * XSTR + (HEIGHT - TOP_HALF_ROWS) * LEFT_NIBBLES"
    | (D) "TOP_HALF_ROWS * XSTR + (HEIGHT - TOP_HALF_ROWS) * LEFT_NIBBLES \<le> i"
    by linarith
  then show ?thesis
  proof cases
    case A
    define r where "r = i div LEFT_NIBBLES"
    define c where "c = i mod LEFT_NIBBLES"
    have s: "srcIndex i = r * XSTR + c" using A by (simp add: srcIndex_def r_def c_def)
    have r: "r < TOP_HALF_ROWS" using A by (simp add: r_def less_mult_imp_div_less)
    have c: "c < LEFT_NIBBLES" using geometry(2) by (simp add: c_def)
    have "r * LEFT_NIBBLES + c = i" by (simp add: r_def c_def)
    then have "dstIndex (srcIndex i) = i" using r c lx by (simp add: s dstIndex_rc)
    moreover have "srcIndex i < XSTR * HEIGHT"
      unfolding s using r c lx geometry(4) by (intro rc_bound) simp_all
    ultimately show ?thesis by simp
  next
    case B
    define j where "j = i - TOP_HALF_ROWS * LEFT_NIBBLES"
    define r where "r = j div RIGHT_NIBBLES"
    define c where "c = LEFT_NIBBLES + j mod RIGHT_NIBBLES"
    have j: "j < TOP_HALF_ROWS * RIGHT_NIBBLES" using B thresholds(1) by (simp add: j_def)
    have s: "srcIndex i = r * XSTR + c"
      using B by (simp add: srcIndex_def Let_def r_def c_def j_def)
    have r: "r < TOP_HALF_ROWS" using j by (simp add: r_def less_mult_imp_div_less)
    have "j mod RIGHT_NIBBLES < RIGHT_NIBBLES" using geometry(3) by simp
    then have c: "c < XSTR" "\<not> c < LEFT_NIBBLES" using geometry(1) unfolding c_def by linarith+
    have "r * RIGHT_NIBBLES + (c - LEFT_NIBBLES) = j" by (simp add: r_def c_def)
    then have "TOP_HALF_ROWS * LEFT_NIBBLES + r * RIGHT_NIBBLES + (c - LEFT_NIBBLES) = i"
      using B(1) by (simp add: j_def)
    then have "dstIndex (srcIndex i) = i" using r c by (simp add: s dstIndex_rc)
    moreover have "srcIndex i < XSTR * HEIGHT"
      unfolding s using r c geometry(4) by (intro rc_bound) simp_all
    ultimately show ?thesis by simp
  next
    case C
    define j where "j = i - TOP_HALF_ROWS * XSTR"
    define r where "r = TOP_HALF_ROWS + j div LEFT_NIBBLES"
    define c where "c = j mod LEFT_NIBBLES"
    have j: "j < (HEIGHT - TOP_HALF_ROWS) * LEFT_NIBBLES" using C by (simp add: j_def)
    have n: "\<not> i < TOP_HALF_ROWS * LEFT_NIBBLES" "\<not> i < TOP_HALF_ROWS * XSTR"
      using C thresholds(1) by simp_all
    have s: "srcIndex i = r * XSTR + c"
      using C(2) n by (simp add: srcIndex_def Let_def r_def c_def j_def)
    have "j div LEFT_NIBBLES < HEIGHT - TOP_HALF_ROWS" using j by (simp add: less_mult_imp_div_less)
    then have r: "r < HEIGHT" "\<not> r < TOP_HALF_ROWS" "r - TOP_HALF_ROWS = j div LEFT_NIBBLES"
      by (simp_all add: r_def)
    have c: "c < LEFT_NIBBLES" using geometry(2) by (simp add: c_def)
    have "(r - TOP_HALF_ROWS) * LEFT_NIBBLES + c = j" by (simp add: r(3) c_def)
    then have "TOP_HALF_ROWS * XSTR + (r - TOP_HALF_ROWS) * LEFT_NIBBLES + c = i"
      using C(1) by (simp add: j_def)
    then have "dstIndex (srcIndex i) = i" using r(2) c lx by (simp add: s dstIndex_rc)
    moreover have "srcIndex i < XSTR * HEIGHT"
      unfolding s using r(1) c lx by (intro rc_bound) simp_all
    ultimately show ?thesis by simp
  next
    case D
    define base where "base = TOP_HALF_ROWS * XSTR + (HEIGHT - TOP_HALF_ROWS) * LEFT_NIBBLES"
    define j where "j = i - base"
    define r where "r = TOP_HALF_ROWS + j div RIGHT_NIBBLES"
    define c where "c = LEFT_NIBBLES + j mod RIGHT_NIBBLES"
    have j: "j < (HEIGHT - TOP_HALF_ROWS) * RIGHT_NIBBLES"
      using D i thresholds(2) by (simp add: j_def base_def)
    have n: "\<not> i < TOP_HALF_ROWS * LEFT_NIBBLES" "\<not> i < TOP_HALF_ROWS * XSTR"
        "\<not> i < TOP_HALF_ROWS * XSTR + (HEIGHT - TOP_HALF_ROWS) * LEFT_NIBBLES"
      using D thresholds(1) by simp_all
    have s: "srcIndex i = r * XSTR + c"
      using n by (simp add: srcIndex_def Let_def r_def c_def j_def base_def)
    have "j div RIGHT_NIBBLES < HEIGHT - TOP_HALF_ROWS" using j by (simp add: less_mult_imp_div_less)
    then have r: "r < HEIGHT" "\<not> r < TOP_HALF_ROWS" "r - TOP_HALF_ROWS = j div RIGHT_NIBBLES"
      by (simp_all add: r_def)
    have "j mod RIGHT_NIBBLES < RIGHT_NIBBLES" using geometry(3) by simp
    then have c: "c < XSTR" "\<not> c < LEFT_NIBBLES" using geometry(1) unfolding c_def by linarith+
    have "(r - TOP_HALF_ROWS) * RIGHT_NIBBLES + (c - LEFT_NIBBLES) = j" by (simp add: r(3) c_def)
    then have "base + (r - TOP_HALF_ROWS) * RIGHT_NIBBLES + (c - LEFT_NIBBLES) = i"
      using D by (simp add: j_def base_def)
    then have "dstIndex (srcIndex i) = i" using r(2) c by (simp add: s dstIndex_rc base_def)
    moreover have "srcIndex i < XSTR * HEIGHT"
      unfolding s using r(1) c by (intro rc_bound) simp_all
    ultimately show ?thesis by simp
  qed
qed

lemma srcIndex_bij: "bij_betw srcIndex {..<XSTR * HEIGHT} {..<XSTR * HEIGHT}"
proof -
  have inj: "inj_on srcIndex {..<XSTR * HEIGHT}"
    by (rule inj_on_inverseI [where g = dstIndex]) (simp add: srcIndex_inverse)
  have sub: "srcIndex ` {..<XSTR * HEIGHT} \<subseteq> {..<XSTR * HEIGHT}"
    using srcIndex_inverse by auto
  have "card (srcIndex ` {..<XSTR * HEIGHT}) = card {..<XSTR * HEIGHT}"
    using inj by (rule card_image)
  then have "srcIndex ` {..<XSTR * HEIGHT} = {..<XSTR * HEIGHT}"
    using sub by (intro card_subset_eq) simp_all
  then show ?thesis using inj by (simp add: bij_betw_def)
qed

lemma dstIndex_inverse:
  assumes "j < XSTR * HEIGHT"
  shows "dstIndex j < XSTR * HEIGHT \<and> srcIndex (dstIndex j) = j"
proof -
  from srcIndex_bij assms obtain i where i: "i < XSTR * HEIGHT" "srcIndex i = j"
    unfolding bij_betw_def by (metis image_iff lessThan_iff)
  then have "dstIndex j = i" using srcIndex_inverse by blast
  then show ?thesis using i by simp
qed

lemma mset_permuted:
  assumes "bij_betw p {..<length xs} {..<length xs}"
  shows "mset (map (\<lambda>i. xs ! p i) [0..<length xs]) = mset xs"
proof -
  have inj: "inj_on p {0..<length xs}" and img: "p ` {0..<length xs} = {0..<length xs}"
    using assms by (simp_all add: bij_betw_def atLeast0LessThan)
  have "mset (map (\<lambda>i. xs ! p i) [0..<length xs]) =
        image_mset ((!) xs) (image_mset p (mset [0..<length xs]))"
    by (simp add: multiset.map_comp comp_def)
  also have "image_mset p (mset [0..<length xs]) = mset_set (p ` {0..<length xs})"
    using inj by (simp add: image_mset_mset_set)
  also have "\<dots> = mset [0..<length xs]" by (simp add: img)
  also have "image_mset ((!) xs) (mset [0..<length xs]) = mset (map ((!) xs) [0..<length xs])"
    by simp
  also have "\<dots> = mset xs" by (simp add: map_nth)
  finally show ?thesis .
qed

text \<open>
  Claim C3. For a packed stream of exactly 326 * 984 = 320784 characters the reorderer
  returns a string of the same length whose character \<open>i\<close> is the character
  \<open>srcIndex i\<close> of the input, where \<open>srcIndex\<close> is a bijection on the positions (the four
  blocks with the 162/164 column split): the output has the input's characters, each as
  often, and reading the output at \<open>dstIndex j\<close> for every \<open>j\<close> gives the input back. For
  an input of any other length it throws.
\<close>

theorem reorderFor1248_permutation:
  "(length msg = 326 * 984 \<longrightarrow>
      (\<exists>out. reorderFor1248 msg = Inr out \<and> length out = length msg \<and>
         (\<forall>i < length msg. out ! i = msg ! srcIndex i) \<and>
         bij_betw srcIndex {..<length msg} {..<length msg} \<and>
         (\<forall>j < length msg. dstIndex j < length msg \<and> srcIndex (dstIndex j) = j) \<and>
         mset out = mset msg \<and>
         map (\<lambda>j. out ! dstIndex j) [0..<length msg] = msg)) \<and>
   (length msg \<noteq> 326 * 984 \<longrightarrow>
      reorderFor1248 msg = Inl (UnexpectedLength (length msg) (326 * 984)))"
proof (intro conjI impI)
  assume "length msg = 326 * 984"
  then have len: "length msg = XSTR * HEIGHT" by (simp add: geometry(5))
  from reorderFor1248_nth [OF len] obtain out where
    out: "reorderFor1248 msg = Inr out" "length out = XSTR * HEIGHT"
      "\<forall>i < XSTR * HEIGHT. out ! i = msg ! srcIndex i"
    by blast
  have bij: "bij_betw srcIndex {..<length msg} {..<length msg}"
    unfolding len by (rule srcIndex_bij)
  have eq: "out = map (\<lambda>i. msg ! srcIndex i) [0..<length msg]"
    using out(2,3) len by (intro nth_equalityI) simp_all
  have m: "mset out = mset msg" unfolding eq using bij by (rule mset_permuted)
  have rt: "map (\<lambda>j. out ! dstIndex j) [0..<length msg] = msg"
    using out(3) dstIndex_inverse len by (intro nth_equalityI) simp_all
  show "\<exists>out. reorderFor1248 msg = Inr out \<and> length out = length msg \<and>
         (\<forall>i < length msg. out ! i = msg ! srcIndex i) \<and>
         bij_betw srcIndex {..<length msg} {..<length msg} \<and>
         (\<forall>j < length msg. dstIndex j < length msg \<and> srcIndex (dstIndex j) = j) \<and>
         mset out = mset msg \<and>
         map (\<lambda>j. out ! dstIndex j) [0..<length msg] = msg"
    using out bij m rt dstIndex_inverse len by auto
next
  assume "length msg \<noteq> 326 * 984"
  then show "reorderFor1248 msg = Inl (UnexpectedLength (length msg) (326 * 984))"
    by (simp add: reorderFor1248_def geometry(5))
qed

text \<open>
  A stream whose first row is all a and whose other rows are all b: position 161 of the
  output is the end of the first row's left part, position 162 the start of the second
  row's left part. A stream of three characters is refused.
\<close>

theorem reorderFor1248_permutation_witness:
  "length (replicate 326 CHR ''a'' @ replicate 320458 CHR ''b'') = 326 * 984 \<and>
   (\<exists>out. reorderFor1248 (replicate 326 CHR ''a'' @ replicate 320458 CHR ''b'') = Inr out \<and>
      length out = 320784 \<and> out ! 161 = CHR ''a'' \<and> out ! 162 = CHR ''b'') \<and>
   srcIndex 161 = 161 \<and> srcIndex 162 = 326 \<and>
   length ''abc'' \<noteq> 326 * 984 \<and>
   reorderFor1248 ''abc'' = Inl (UnexpectedLength 3 320784)"
proof -
  let ?msg = "replicate 326 CHR ''a'' @ replicate 320458 CHR ''b''"
  have l: "length ?msg = 326 * 984" by simp
  have s: "srcIndex 161 = 161" "srcIndex 162 = 326"
    by (simp_all add: srcIndex_def TOP_HALF_ROWS_def HEIGHT_def LEFT_NIBBLES_def XSTR_def WIDTH_def)
  from reorderFor1248_permutation [of ?msg] l obtain out where
    out: "reorderFor1248 ?msg = Inr out" "length out = length ?msg"
      "\<forall>i < length ?msg. out ! i = ?msg ! srcIndex i"
    by blast
  have "out ! 161 = ?msg ! srcIndex 161" "out ! 162 = ?msg ! srcIndex 162"
    using out(3) by simp_all
  then have o: "out ! 161 = CHR ''a''" "out ! 162 = CHR ''b''"
    unfolding s by (simp_all add: nth_append)
  have e: "reorderFor1248 ''abc'' = Inl (UnexpectedLength 3 320784)"
    using reorderFor1248_permutation [of "''abc''"] by simp
  show ?thesis using l out(1,2) o s e by simp
qed

section \<open>Chunking\<close>

lemma chunkFrom_slices:
  assumes n: "0 < n"
  shows "chunkFrom s n i =
     Some (map (\<lambda>k. slice_str s (i + k * n) (i + k * n + n)) [0..<(length s - i + n - 1) div n])"
proof (induction "length s - i" arbitrary: i rule: less_induct)
  case less
  show ?case
  proof (cases "i < length s")
    case False
    then have "(length s - i + n - 1) div n = 0" using n by simp
    then show ?thesis using False by (subst chunkFrom.simps) simp
  next
    case True
    then have "length s - (i + n) < length s - i" using n by simp
    then have IH: "chunkFrom s n (i + n) =
        Some (map (\<lambda>k. slice_str s (i + n + k * n) (i + n + k * n + n))
          [0..<(length s - (i + n) + n - 1) div n])"
      by (rule less)
    have cnt: "(length s - i + n - 1) div n = Suc ((length s - (i + n) + n - 1) div n)"
    proof (cases "length s - i \<le> n")
      case True
      then have "length s - (i + n) = 0" by simp
      moreover have "(length s - i + n - 1) div n = 1"
      proof -
        have "n \<le> length s - i + n - 1" "length s - i + n - 1 < 2 * n"
          using True \<open>i < length s\<close> n by simp_all
        then show ?thesis by (simp add: div_nat_eqI)
      qed
      ultimately show ?thesis using n by simp
    next
      case False
      define a where "a = length s - (i + n) + n - 1"
      have e: "length s - i + n - 1 = a + n" using False by (simp add: a_def)
      have "(a + n) div n = Suc (a div n)" using n by simp
      then show ?thesis unfolding e a_def .
    qed
    have "map (\<lambda>k. slice_str s (i + k * n) (i + k * n + n)) [0..<Suc ((length s - (i + n) + n - 1) div n)] =
          slice_str s i (i + n) #
          map (\<lambda>k. slice_str s (i + n + k * n) (i + n + k * n + n)) [0..<(length s - (i + n) + n - 1) div n]"
      by (simp add: map_upt_Suc add.assoc add.left_commute del: upt_Suc)
    then show ?thesis using True IH cnt by (subst chunkFrom.simps) simp
  qed
qed

lemma chunk_slices: "0 < n \<Longrightarrow> chunk s n = Some (slices s n)"
  by (simp add: chunk_def slices_def chunkFrom_slices)

lemma length_slices: "length (slices s n) = (length s + n - 1) div n"
  by (simp add: slices_def)

lemma slices_le: "c \<in> set (slices s n) \<Longrightarrow> length c \<le> n"
  by (auto simp: slices_def slice_str_def)

lemma concat_slices_upto:
  "concat (map (\<lambda>k. slice_str s (k * n) (k * n + n)) [0..<m]) = take (m * n) s"
proof (induction m)
  case 0
  show ?case by simp
next
  case (Suc m)
  have "take (m * n) s @ slice_str s (m * n) (m * n + n) = take (m * n + n) s"
    by (simp add: slice_str_def take_add)
  then show ?case using Suc by (simp add: add.commute)
qed

lemma concat_slices: "0 < n \<Longrightarrow> concat (slices s n) = s"
proof -
  assume n: "0 < n"
  have "length s \<le> (length s + n - 1) div n * n"
  proof -
    have "length s + n - 1 < (length s + n - 1) div n * n + n"
      using n by (metis add.commute dividend_less_div_times mult.commute)
    then show ?thesis by simp
  qed
  then show ?thesis by (simp add: slices_def concat_slices_upto)
qed

section \<open>The upload sequence\<close>

lemma sendAll_append:
  "sendAll dev (xs @ ys) = andThen (sendAll dev xs) (sendAll dev ys)"
proof
  fix sent
  show "sendAll dev (xs @ ys) sent = andThen (sendAll dev xs) (sendAll dev ys) sent"
  proof (induction xs arbitrary: sent)
    case Nil
    show ?case by (simp add: andThen_def)
  next
    case (Cons r xs)
    show ?case
      by (cases "postText dev (reqPath r) (reqBody r) sent" rule: prod.exhaust [case_names Pair])
        (auto simp: andThen_def Cons split: sum.splits prod.splits)
  qed
qed

lemma postText_sendAll: "postText dev p b = sendAll dev [POST p b]"
proof
  fix sent
  show "postText dev p b sent = sendAll dev [POST p b] sent"
    by (simp add: andThen_def postText_def Let_def)
qed

lemma postChunks_sendAll: "postChunks dev p cs = sendAll dev (map (POST p) cs)"
proof
  fix sent
  show "postChunks dev p cs sent = sendAll dev (map (POST p) cs) sent"
    by (induction cs arbitrary: sent) (simp_all add: andThen_def split: prod.splits sum.splits)
qed

lemma skip_sendAll: "(\<lambda>sent. (Inr (), sent)) = sendAll dev []"
  by (rule ext) simp

text \<open>
  What sending a plan does: the requests sent are the first \<open>k\<close> of the plan, each of
  them but the last was answered with success, and the outcome is success exactly when
  the last one was too; then the whole plan was sent.
\<close>

lemma sendAll_prefix:
  "\<exists>k \<le> length plan.
     snd (sendAll dev plan sent0) = sent0 @ take k plan \<and>
     (\<forall>j. 0 < j \<and> j < k \<longrightarrow> dev (sent0 @ take j plan)) \<and>
     (fst (sendAll dev plan sent0) = Inr () \<longrightarrow>
        k = length plan \<and> (0 < k \<longrightarrow> dev (sent0 @ take k plan))) \<and>
     (fst (sendAll dev plan sent0) \<noteq> Inr () \<longrightarrow>
        0 < k \<and> \<not> dev (sent0 @ take k plan) \<and>
        fst (sendAll dev plan sent0) = Inl (PostFailed (reqPath (plan ! (k - 1)))))"
proof (induction plan arbitrary: sent0)
  case Nil
  show ?case by simp
next
  case (Cons r rs)
  show ?case
  proof (cases "dev (sent0 @ [r])")
    case False
    then have "sendAll dev (r # rs) sent0 = (Inl (PostFailed (reqPath r)), sent0 @ [r])"
      by (simp add: andThen_def postText_def Let_def)
    then show ?thesis using False by (intro exI [of _ 1]) simp
  next
    case True
    then have run: "sendAll dev (r # rs) sent0 = sendAll dev rs (sent0 @ [r])"
      by (simp add: andThen_def postText_def Let_def)
    from Cons [of "sent0 @ [r]"] obtain k where k: "k \<le> length rs"
      "snd (sendAll dev rs (sent0 @ [r])) = (sent0 @ [r]) @ take k rs"
      "\<forall>j. 0 < j \<and> j < k \<longrightarrow> dev ((sent0 @ [r]) @ take j rs)"
      "fst (sendAll dev rs (sent0 @ [r])) = Inr () \<longrightarrow>
         k = length rs \<and> (0 < k \<longrightarrow> dev ((sent0 @ [r]) @ take k rs))"
      "fst (sendAll dev rs (sent0 @ [r])) \<noteq> Inr () \<longrightarrow>
         0 < k \<and> \<not> dev ((sent0 @ [r]) @ take k rs) \<and>
         fst (sendAll dev rs (sent0 @ [r])) = Inl (PostFailed (reqPath (rs ! (k - 1))))"
      by blast
    have pre: "dev (sent0 @ take j (r # rs))" if "0 < j" "j < Suc k" for j
    proof (cases j)
      case 0
      then show ?thesis using that by simp
    next
      case (Suc j')
      show ?thesis
      proof (cases "j' = 0")
        case True
        then show ?thesis using Suc \<open>dev (sent0 @ [r])\<close> by simp
      next
        case False
        then show ?thesis using k(3) that Suc by simp
      qed
    qed
    have last: "0 < k \<Longrightarrow> (r # rs) ! (Suc k - 1) = rs ! (k - 1)" by (cases k) simp_all
    show ?thesis
      unfolding run
    proof (intro exI [of _ "Suc k"] conjI impI allI)
      show "Suc k \<le> length (r # rs)" using k(1) by simp
      show "snd (sendAll dev rs (sent0 @ [r])) = sent0 @ take (Suc k) (r # rs)" using k(2) by simp
      show "dev (sent0 @ take j (r # rs))" if "0 < j \<and> j < Suc k" for j using pre that by blast
      show "Suc k = length (r # rs)" if "fst (sendAll dev rs (sent0 @ [r])) = Inr ()"
        using k(4) that by simp
      show "dev (sent0 @ take (Suc k) (r # rs))"
        if "fst (sendAll dev rs (sent0 @ [r])) = Inr ()" "0 < Suc k"
      proof (cases "k = 0")
        case True
        then show ?thesis using \<open>dev (sent0 @ [r])\<close> by simp
      next
        case False
        then have "dev ((sent0 @ [r]) @ take k rs)" using k(4) that(1) by blast
        then show ?thesis by simp
      qed
      show "0 < Suc k" by simp
      show "\<not> dev (sent0 @ take (Suc k) (r # rs))" if "fst (sendAll dev rs (sent0 @ [r])) \<noteq> Inr ()"
        using k(5) that by simp
      show "fst (sendAll dev rs (sent0 @ [r])) = Inl (PostFailed (reqPath ((r # rs) ! (Suc k - 1))))"
        if "fst (sendAll dev rs (sent0 @ [r])) \<noteq> Inr ()"
        using k(5) that last by simp
    qed
  qed
qed

lemma packed_length: "(WIDTH * HEIGHT + 3) div 4 = XSTR * HEIGHT"
  by (simp add: XSTR_def WIDTH_def HEIGHT_def)

lemma frame_exists:
  "\<exists>frame. reorderFor1248 (packToChars (fst (makePlanes rgba m mode))) = Inr frame \<and>
           length frame = XSTR * HEIGHT"
  "\<exists>frame. reorderFor1248 (packToChars (snd (makePlanes rgba m mode))) = Inr frame \<and>
           length frame = XSTR * HEIGHT"
proof -
  have "length (packToChars (fst (makePlanes rgba m mode))) = XSTR * HEIGHT"
    "length (packToChars (snd (makePlanes rgba m mode))) = XSTR * HEIGHT"
    by (simp_all add: packToChars_eq makePlanes_eq packed_length)
  then show
    "\<exists>frame. reorderFor1248 (packToChars (fst (makePlanes rgba m mode))) = Inr frame \<and>
           length frame = XSTR * HEIGHT"
    "\<exists>frame. reorderFor1248 (packToChars (snd (makePlanes rgba m mode))) = Inr frame \<and>
           length frame = XSTR * HEIGHT"
    using reorderFor1248_nth by blast+
qed

lemma frame_chunks:
  assumes "length frame = XSTR * HEIGHT"
  shows "chunk frame CHUNK_SIZE = Some (slices frame CHUNK_SIZE)"
    and "concat (slices frame CHUNK_SIZE) = frame"
    and "length (slices frame CHUNK_SIZE) = 11"
    and "\<forall>c \<in> set (slices frame CHUNK_SIZE). length c \<le> 30000"
proof -
  have pos: "0 < CHUNK_SIZE" by (simp add: CHUNK_SIZE_def)
  show "chunk frame CHUNK_SIZE = Some (slices frame CHUNK_SIZE)" using pos by (rule chunk_slices)
  show "concat (slices frame CHUNK_SIZE) = frame" using pos by (rule concat_slices)
  show "length (slices frame CHUNK_SIZE) = 11"
    using assms by (simp add: length_slices geometry(5) CHUNK_SIZE_def)
  show "\<forall>c \<in> set (slices frame CHUNK_SIZE). length c \<le> 30000"
    using slices_le [of _ frame CHUNK_SIZE] by (simp add: CHUNK_SIZE_def)
qed

lemma sequence_sendAll:
  "andThen (postText dev ''EPD'' model)
     (andThen (postChunks dev ''LOADA'' bs)
        (andThen (sendAll dev xs) (postText dev ''SHOW'' model))) =
   sendAll dev ([POST ''EPD'' model] @ map (POST ''LOADA'') bs @ xs @ [POST ''SHOW'' model])"
  by (simp only: postText_sendAll postChunks_sendAll sendAll_append)

lemma upload_run:
  assumes m: "MODELS model = Some m"
    and b: "reorderFor1248 (packToChars (fst (makePlanes rgba m
              (Some (case mode of None \<Rightarrow> 2 | Some x \<Rightarrow> x))))) = Inr bFrame"
    and r: "reorderFor1248 (packToChars (snd (makePlanes rgba m
              (Some (case mode of None \<Rightarrow> 2 | Some x \<Rightarrow> x))))) = Inr rFrame"
    and bl: "length bFrame = XSTR * HEIGHT" and rl: "length rFrame = XSTR * HEIGHT"
  shows "uploadImageBuffer dev model rgba mode =
           Some (sendAll dev (uploadPlan model m bFrame rFrame) [])"
proof -
  obtain bb rb where p: "makePlanes rgba m (Some (case mode of None \<Rightarrow> 2 | Some x \<Rightarrow> x)) = (bb, rb)"
    by (cases "makePlanes rgba m (Some (case mode of None \<Rightarrow> 2 | Some x \<Rightarrow> x))")
  have b': "reorderFor1248 (packToChars bb) = Inr bFrame" using b p by simp
  have r': "reorderFor1248 (packToChars rb) = Inr rFrame" using r p by simp
  note cb = frame_chunks(1) [OF bl] and cr = frame_chunks(1) [OF rl]
  show ?thesis
  proof (cases "color m = 0")
    case True
    have "uploadPlan model m bFrame rFrame =
        [POST ''EPD'' model] @ map (POST ''LOADA'') (slices bFrame CHUNK_SIZE) @ [] @
        [POST ''SHOW'' model]"
      using True by (simp add: uploadPlan_def)
    then show ?thesis
      unfolding uploadImageBuffer_def Let_def m option.case p prod.case b' sum.case
      using True cb sequence_sendAll [of dev model "slices bFrame CHUNK_SIZE" "[]"]
      by (simp add: skip_sendAll [of dev] del: sendAll.simps)
  next
    case False
    have "uploadPlan model m bFrame rFrame =
        [POST ''EPD'' model] @ map (POST ''LOADA'') (slices bFrame CHUNK_SIZE) @
        map (POST ''LOADB'') (slices rFrame CHUNK_SIZE) @ [POST ''SHOW'' model]"
      using False by (simp add: uploadPlan_def)
    then show ?thesis
      unfolding uploadImageBuffer_def Let_def m option.case p prod.case b' sum.case
      using False cb cr r' sequence_sendAll [of dev model "slices bFrame CHUNK_SIZE"
          "map (POST ''LOADB'') (slices rFrame CHUNK_SIZE)"]
      by (simp add: postChunks_sendAll del: sendAll.simps)
  qed
qed

lemma last_take: "0 < k \<Longrightarrow> k \<le> length xs \<Longrightarrow> last (take k xs) = xs ! (k - 1)"
proof -
  assume k: "0 < k" "k \<le> length xs"
  then have "take k xs \<noteq> []" by auto
  then have "last (take k xs) = take k xs ! (length (take k xs) - 1)" by (rule last_conv_nth)
  then show ?thesis using k by simp
qed

lemma uploadPlan_nonempty: "uploadPlan model m bFrame rFrame \<noteq> []"
  by (simp add: uploadPlan_def)

text \<open>
  Claim C4. For a supported model the upload returns, and the requests it sent are the
  first \<open>k \<ge> 1\<close> requests of the plan: one POST to EPD with the model identifier, the
  POSTs to LOADA with the successive slices of at most 30000 characters of the dark
  frame, for a colour model the POSTs to LOADB with those of the accent frame, one POST to
  SHOW. Every request before the last sent was answered with success; the outcome is
  success exactly when the last one was as well, and then the whole plan was sent; otherwise
  the last request sent is the one that failed, and nothing was sent after it. The slices
  of a frame concatenate to the frame, and there are 11 of them.
\<close>

theorem upload_sequence:
  assumes "MODELS model = Some m"
  shows "\<exists>bFrame rFrame res sent k.
     reorderFor1248 (packToChars (fst (makePlanes rgba m
        (Some (case mode of None \<Rightarrow> 2 | Some x \<Rightarrow> x))))) = Inr bFrame \<and>
     reorderFor1248 (packToChars (snd (makePlanes rgba m
        (Some (case mode of None \<Rightarrow> 2 | Some x \<Rightarrow> x))))) = Inr rFrame \<and>
     uploadImageBuffer dev model rgba mode = Some (res, sent) \<and>
     0 < k \<and> k \<le> length (uploadPlan model m bFrame rFrame) \<and>
     sent = take k (uploadPlan model m bFrame rFrame) \<and>
     (\<forall>j. 0 < j \<and> j < k \<longrightarrow> dev (take j (uploadPlan model m bFrame rFrame))) \<and>
     (res = Inr () \<longleftrightarrow> dev sent) \<and>
     (res = Inr () \<longrightarrow> sent = uploadPlan model m bFrame rFrame) \<and>
     (res \<noteq> Inr () \<longrightarrow> res = Inl (PostFailed (reqPath (last sent)))) \<and>
     concat (slices bFrame CHUNK_SIZE) = bFrame \<and> concat (slices rFrame CHUNK_SIZE) = rFrame \<and>
     (\<forall>c \<in> set (slices bFrame CHUNK_SIZE) \<union> set (slices rFrame CHUNK_SIZE). length c \<le> 30000) \<and>
     length (slices bFrame CHUNK_SIZE) = 11 \<and> length (slices rFrame CHUNK_SIZE) = 11"
proof -
  let ?mode = "Some (case mode of None \<Rightarrow> 2 | Some x \<Rightarrow> x)"
  from frame_exists(1) [of rgba m ?mode] obtain bFrame where
    b: "reorderFor1248 (packToChars (fst (makePlanes rgba m ?mode))) = Inr bFrame"
       "length bFrame = XSTR * HEIGHT" by blast
  from frame_exists(2) [of rgba m ?mode] obtain rFrame where
    r: "reorderFor1248 (packToChars (snd (makePlanes rgba m ?mode))) = Inr rFrame"
       "length rFrame = XSTR * HEIGHT" by blast
  let ?plan = "uploadPlan model m bFrame rFrame"
  define res where "res = fst (sendAll dev ?plan [])"
  define sent where "sent = snd (sendAll dev ?plan [])"
  have run: "uploadImageBuffer dev model rgba mode = Some (res, sent)"
    using upload_run [OF assms b(1) r(1) b(2) r(2), of dev] by (simp add: res_def sent_def)
  from sendAll_prefix [of ?plan dev "[]"] obtain k where k: "k \<le> length ?plan"
    "sent = take k ?plan"
    "\<forall>j. 0 < j \<and> j < k \<longrightarrow> dev (take j ?plan)"
    "res = Inr () \<longrightarrow> k = length ?plan \<and> (0 < k \<longrightarrow> dev (take k ?plan))"
    "res \<noteq> Inr () \<longrightarrow> 0 < k \<and> \<not> dev (take k ?plan) \<and>
       res = Inl (PostFailed (reqPath (?plan ! (k - 1))))"
    unfolding res_def sent_def by auto
  have len: "0 < length ?plan" using uploadPlan_nonempty [of model m bFrame rFrame] by simp
  have kpos: "0 < k" using k(4,5) len by (cases "res = Inr ()") simp_all
  have last: "last sent = ?plan ! (k - 1)"
    unfolding k(2) using kpos k(1) by (rule last_take)
  have ok: "res = Inr () \<longleftrightarrow> dev sent" using k(2,4,5) kpos by blast
  have whole: "res = Inr () \<longrightarrow> sent = ?plan" using k(2,4) by simp
  have failed: "res \<noteq> Inr () \<longrightarrow> res = Inl (PostFailed (reqPath (last sent)))"
    using k(5) last by simp
  note cb = frame_chunks [OF b(2)] and cr = frame_chunks [OF r(2)]
  have le: "\<forall>c \<in> set (slices bFrame CHUNK_SIZE) \<union> set (slices rFrame CHUNK_SIZE). length c \<le> 30000"
    using cb(4) cr(4) by blast
  show ?thesis
    using b(1) r(1) run kpos k(1,2,3) ok whole failed cb(2,3) cr(2,3) le by blast
qed

text \<open>
  A red-accent panel and an empty buffer. A device that accepts everything receives all
  1 + 11 + 11 + 1 = 24 requests; a device that rejects the third request it receives gets
  three requests, and the upload fails at LOADA.
\<close>

theorem upload_sequence_witness:
  "MODELS ''12.48inch e-Paper (B)'' = Some EPaperB \<and>
   (\<exists>sent. uploadImageBuffer (\<lambda>reqs. True) ''12.48inch e-Paper (B)'' [] None = Some (Inr (), sent) \<and>
      length sent = 24 \<and> hd sent = POST ''EPD'' ''12.48inch e-Paper (B)'' \<and>
      last sent = POST ''SHOW'' ''12.48inch e-Paper (B)'') \<and>
   (\<exists>sent. uploadImageBuffer (\<lambda>reqs. length reqs \<noteq> 3) ''12.48inch e-Paper (B)'' [] None =
        Some (Inl (PostFailed ''LOADA''), sent) \<and>
      length sent = 3)"
proof -
  let ?model = "''12.48inch e-Paper (B)''"
  have m: "MODELS ?model = Some EPaperB" by (simp add: MODELS_def)
  have plan_len: "length (uploadPlan ?model EPaperB bFrame rFrame) = 24"
    if "length (slices bFrame CHUNK_SIZE) = 11" "length (slices rFrame CHUNK_SIZE) = 11"
    for bFrame rFrame
    using that by (simp add: uploadPlan_def)
  have plan_hd: "hd (uploadPlan ?model EPaperB bFrame rFrame) = POST ''EPD'' ?model"
    and plan_last: "last (uploadPlan ?model EPaperB bFrame rFrame) = POST ''SHOW'' ?model"
    for bFrame rFrame
    by (simp_all add: uploadPlan_def)
  have plan_2: "reqPath (uploadPlan ?model EPaperB bFrame rFrame ! 2) = ''LOADA''"
    if "length (slices bFrame CHUNK_SIZE) = 11" for bFrame rFrame
  proof -
    have "uploadPlan ?model EPaperB bFrame rFrame ! 2 =
        (map (POST ''LOADA'') (slices bFrame CHUNK_SIZE) @
         map (POST ''LOADB'') (slices rFrame CHUNK_SIZE) @ [POST ''SHOW'' ?model]) ! 1"
      by (simp add: uploadPlan_def numeral_2_eq_2)
    also have "\<dots> = POST ''LOADA'' (slices bFrame CHUNK_SIZE ! 1)"
      using that by (simp add: nth_append)
    finally show ?thesis by simp
  qed
  have good: "\<exists>sent. uploadImageBuffer (\<lambda>reqs. True) ?model [] None = Some (Inr (), sent) \<and>
      length sent = 24 \<and> hd sent = POST ''EPD'' ?model \<and> last sent = POST ''SHOW'' ?model"
  proof -
    from upload_sequence [OF m, of "[]" None "\<lambda>reqs. True"] obtain bFrame rFrame res sent where
      u: "uploadImageBuffer (\<lambda>reqs. True) ?model [] None = Some (res, sent)"
        "res = Inr () \<longleftrightarrow> True" "res = Inr () \<longrightarrow> sent = uploadPlan ?model EPaperB bFrame rFrame"
        "length (slices bFrame CHUNK_SIZE) = 11" "length (slices rFrame CHUNK_SIZE) = 11"
      by blast
    then have "res = Inr ()" "sent = uploadPlan ?model EPaperB bFrame rFrame" by simp_all
    then show ?thesis using u(1) plan_len [OF u(4,5)] plan_hd plan_last by simp
  qed
  have bad: "\<exists>sent. uploadImageBuffer (\<lambda>reqs. length reqs \<noteq> 3) ?model [] None =
        Some (Inl (PostFailed ''LOADA''), sent) \<and> length sent = 3"
  proof -
    from upload_sequence [OF m, of "[]" None "\<lambda>reqs. length reqs \<noteq> 3"]
    obtain bFrame rFrame res sent k where
      u: "uploadImageBuffer (\<lambda>reqs. length reqs \<noteq> 3) ?model [] None = Some (res, sent)"
        "0 < k" "k \<le> length (uploadPlan ?model EPaperB bFrame rFrame)"
        "sent = take k (uploadPlan ?model EPaperB bFrame rFrame)"
        "\<forall>j. 0 < j \<and> j < k \<longrightarrow> length (take j (uploadPlan ?model EPaperB bFrame rFrame)) \<noteq> 3"
        "res = Inr () \<longleftrightarrow> length sent \<noteq> 3"
        "res = Inr () \<longrightarrow> sent = uploadPlan ?model EPaperB bFrame rFrame"
        "res \<noteq> Inr () \<longrightarrow> res = Inl (PostFailed (reqPath (last sent)))"
        "length (slices bFrame CHUNK_SIZE) = 11" "length (slices rFrame CHUNK_SIZE) = 11"
      by blast
    let ?plan = "uploadPlan ?model EPaperB bFrame rFrame"
    have pl: "length ?plan = 24" by (rule plan_len [OF u(9,10)])
    have ls: "length sent = k" using u(3,4) by simp
    have "k \<le> 3"
    proof (rule ccontr)
      assume "\<not> k \<le> 3"
      then have "0 < (3::nat) \<and> 3 < k" by simp
      then have "length (take 3 ?plan) \<noteq> 3" using u(5) by blast
      then show False using pl by simp
    qed
    moreover have "\<not> k < 3"
    proof
      assume "k < 3"
      then have "res = Inr ()" using u(6) ls by simp
      then have "sent = ?plan" using u(7) by simp
      then show False using ls pl \<open>k < 3\<close> by simp
    qed
    ultimately have k3: "k = 3" by simp
    then have "res \<noteq> Inr ()" using u(6) ls by simp
    then have "res = Inl (PostFailed (reqPath (last sent)))" using u(8) by simp
    moreover have "last sent = ?plan ! 2"
      unfolding u(4) using last_take [of k ?plan] k3 pl by simp
    ultimately have "res = Inl (PostFailed ''LOADA'')" using plan_2 [OF u(9)] by simp
    then show ?thesis using u(1) ls k3 by simp
  qed
  show ?thesis using m good bad by blast
qed


end
